theory Spec2Isabelle
  imports Main "HOL-Library.AList" "HOL-Library.Sublist"
begin

section \<open>The file system below the base directory\<close>

text \<open>
  Every generator writes below one directory: \<^verbatim>\<open>BASE = Path(__file__).parent\<close> in the
  Python generators that use pathlib, \<^verbatim>\<open>nodejs_dir\<close> in the Node.js generator, the
  working directory in \<^verbatim>\<open>generate_ultra_final_nine.py\<close>. That directory holds the script,
  so it exists. A path is the list of names leading from it to a node; \<open>[]\<close> is the base
  directory itself. The file system is the association list of the nodes below the base
  directory (POSIX behaviour, no symbolic links, no permissions, no quotas).
\<close>

type_synonym path = "string list"

datatype node = Dir | File string

type_synonym filesystem = "(path \<times> node) list"

datatype error = FileNotFoundError | FileExistsError | NotADirectoryError | IsADirectoryError

text \<open>Path resolution as the kernel does it: name by name, starting in a directory.\<close>

fun walk :: "filesystem \<Rightarrow> path \<Rightarrow> node \<Rightarrow> string list \<Rightarrow> error + node" where
  "walk fs cur n [] = Inr n"
| "walk fs cur (File c) (x # xs) = Inl NotADirectoryError"
| "walk fs cur Dir (x # xs) =
     (case map_of fs (cur @ [x]) of
        None \<Rightarrow> Inl FileNotFoundError
      | Some n \<Rightarrow> walk fs (cur @ [x]) n xs)"

definition stat :: "filesystem \<Rightarrow> path \<Rightarrow> error + node" where
  "stat fs p = walk fs [] Dir p"

definition is_dir :: "filesystem \<Rightarrow> path \<Rightarrow> bool" where
  "is_dir fs p = (stat fs p = Inr Dir)"

definition exists :: "filesystem \<Rightarrow> path \<Rightarrow> bool" where
  "exists fs p = (case stat fs p of Inl e \<Rightarrow> False | Inr n \<Rightarrow> True)"

text \<open>
  Reading a file back, \<^verbatim>\<open>open(p).read()\<close>. No generator reads; this is the observation
  in which the properties of the written tree are stated.
\<close>

definition read_file :: "filesystem \<Rightarrow> path \<Rightarrow> error + string" where
  "read_file fs p =
     (case stat fs p of
        Inl e \<Rightarrow> Inl e
      | Inr Dir \<Rightarrow> Inl IsADirectoryError
      | Inr (File c) \<Rightarrow> Inr c)"

text \<open>
  A failing operation returns the error together with the file system as it is when the
  exception is raised: nothing is undone.
\<close>

definition os_mkdir :: "path \<Rightarrow> filesystem \<Rightarrow> error option \<times> filesystem" where
  "os_mkdir p fs =
     (if p = [] then (Some FileExistsError, fs)
      else case stat fs (butlast p) of
             Inl e \<Rightarrow> (Some e, fs)
           | Inr (File c) \<Rightarrow> (Some NotADirectoryError, fs)
           | Inr Dir \<Rightarrow>
               (case map_of fs p of
                  Some n \<Rightarrow> (Some FileExistsError, fs)
                | None \<Rightarrow> (None, AList.update p Dir fs)))"

text \<open>
  \<^verbatim>\<open>Path.mkdir(parents=False, exist_ok=True)\<close>: the call pathlib makes for the last name
  once the parents are there. A missing parent is raised again; any other error is
  swallowed when the path is a directory.
\<close>

definition mkdir_leaf :: "path \<Rightarrow> filesystem \<Rightarrow> error option \<times> filesystem" where
  "mkdir_leaf p fs =
     (let r = os_mkdir p fs in
      if fst r = None then r
      else if fst r = Some FileNotFoundError then r
      else if is_dir fs p then (None, fs) else r)"

text \<open>
  \<^verbatim>\<open>Path.mkdir(parents=True, exist_ok=True)\<close>:
  \<^verbatim>\<open>
    try: os.mkdir(self, mode)
    except FileNotFoundError:
        if not parents or self.parent == self: raise
        self.parent.mkdir(parents=True, exist_ok=True)
        self.mkdir(mode, parents=False, exist_ok=exist_ok)
    except OSError:
        if not exist_ok or not self.is_dir(): raise
  \<close>
\<close>

function mkdir :: "path \<Rightarrow> filesystem \<Rightarrow> error option \<times> filesystem" where
  "mkdir p fs =
     (let r = os_mkdir p fs in
      if fst r = None then r
      else if fst r = Some FileNotFoundError then
        (if p = [] then r
         else (let r1 = mkdir (butlast p) fs in
               if fst r1 = None then mkdir_leaf p (snd r1) else r1))
      else if is_dir fs p then (None, fs) else r)"
  by pat_completeness auto
termination
  by (relation "measure (\<lambda>(p, fs). length p)") auto

text \<open>
  \<^verbatim>\<open>with open(p, 'w', encoding='utf-8') as f: f.write(code)\<close>: the file is created or
  truncated and holds \<open>code\<close> afterwards.
\<close>

definition open_write :: "path \<Rightarrow> string \<Rightarrow> filesystem \<Rightarrow> error option \<times> filesystem" where
  "open_write p code fs =
     (if p = [] then (Some IsADirectoryError, fs)
      else case stat fs (butlast p) of
             Inl e \<Rightarrow> (Some e, fs)
           | Inr (File c) \<Rightarrow> (Some NotADirectoryError, fs)
           | Inr Dir \<Rightarrow>
               (case map_of fs p of
                  Some Dir \<Rightarrow> (Some IsADirectoryError, fs)
                | _ \<Rightarrow> (None, AList.update p (File code) fs)))"

text \<open>
  \<^verbatim>\<open>os.scandir(d)\<close>: the names in a directory; an error when \<open>d\<close> is none.
\<close>

definition os_scandir :: "filesystem \<Rightarrow> path \<Rightarrow> error + string list" where
  "os_scandir fs d =
     (case stat fs d of
        Inl e \<Rightarrow> Inl e
      | Inr (File c) \<Rightarrow> Inl NotADirectoryError
      | Inr Dir \<Rightarrow>
          Inr (remdups (map last (filter (\<lambda>p. p \<noteq> [] \<and> butlast p = d) (map fst fs)))))"

text \<open>
  \<^verbatim>\<open>d.glob("*" + ext)\<close> of pathlib: nothing when \<open>d\<close> is no directory, else the
  entries of \<open>d\<close> whose name ends in \<open>ext\<close>, files and directories alike, hidden names
  included.
\<close>

definition endswith :: "string \<Rightarrow> string \<Rightarrow> bool" where
  "endswith s ext =
     (length ext \<le> length s \<and> drop (length s - length ext) s = ext)"

definition glob_star :: "filesystem \<Rightarrow> path \<Rightarrow> string \<Rightarrow> error + path list" where
  "glob_star fs d ext =
     (if \<not> is_dir fs d then Inr []
      else case os_scandir fs d of
             Inl e \<Rightarrow> Inl e
           | Inr names \<Rightarrow> Inr (map (\<lambda>x. d @ [x]) (filter (\<lambda>x. endswith x ext) names)))"

section \<open>Path strings\<close>

text \<open>
  \<^verbatim>\<open>BASE / filepath\<close>: the names of a '/'-separated string; pathlib drops empty names
  and single dots, as the kernel does when it resolves a string. Strings that leave the
  base directory (a leading '/', a name \<^verbatim>\<open>..\<close>) are outside this model: \<open>inside_base\<close>
  says that a string is none of them.
\<close>

fun split_on :: "char \<Rightarrow> string \<Rightarrow> string list" where
  "split_on sep [] = [[]]"
| "split_on sep (c # cs) =
     (let r = split_on sep cs in
      if c = sep then [] # r else (c # hd r) # tl r)"

definition path_of :: "string \<Rightarrow> path" where
  "path_of s = filter (\<lambda>x. x \<noteq> [] \<and> x \<noteq> ''.'') (split_on CHR ''/'' s)"

definition inside_base :: "string \<Rightarrow> bool" where
  "inside_base s = ((s = [] \<or> hd s \<noteq> CHR ''/'') \<and> ''..'' \<notin> set (path_of s))"

definition parent :: "path \<Rightarrow> path" where
  "parent p = butlast p"

text \<open>
  \<^verbatim>\<open>open(filepath, 'w')\<close> on a string, as \<^verbatim>\<open>generate_ultra_final_nine.py\<close> and the
  Node.js generator call it. A string that ends in '/' or in a name \<^verbatim>\<open>.\<close> asks for a
  directory, which cannot be opened for writing.
\<close>

definition open_name :: "string \<Rightarrow> string \<Rightarrow> filesystem \<Rightarrow> error option \<times> filesystem" where
  "open_name filepath content fs =
     (let names = split_on CHR ''/'' filepath; p = path_of filepath in
      if p \<noteq> [] \<and> last names = [] then
        (case stat fs (butlast p) of
           Inl e \<Rightarrow> (Some e, fs)
         | Inr (File c) \<Rightarrow> (Some NotADirectoryError, fs)
         | Inr Dir \<Rightarrow> (Some IsADirectoryError, fs))
      else if p \<noteq> [] \<and> last names = ''.'' then
        (case stat fs p of
           Inl e \<Rightarrow> (Some e, fs)
         | Inr (File c) \<Rightarrow> (Some NotADirectoryError, fs)
         | Inr Dir \<Rightarrow> (Some IsADirectoryError, fs))
      else open_write p content fs)"

section \<open>The process: file system, writes and standard output\<close>

text \<open>
  Standard output is a sequence of lines. \<open>Banner\<close> is a print of fixed decoration (a
  rule, a title, an empty line); the other lines carry the values the source formats
  into them:
  \<open>Written p\<close> for the progress line of a written path,
  \<open>Failed p e\<close> for the line of \<^verbatim>\<open>generate_ultra_final_nine.py\<close> that reports an error,
  \<open>Generated n\<close> for the line that reports \<^verbatim>\<open>len(TABLE)\<close> or \<^verbatim>\<open>total_count\<close>,
  \<open>Heading c\<close> for the category heading of the Node.js generator,
  \<open>Tally c n\<close> for a summary line of a category and its count,
  \<open>Total n\<close> for the line with the sum.
  The events of a process are its successful writes and its prints, in the order in which
  they happen.
\<close>

datatype line = Banner | Written string | Failed string error | Generated nat
  | Heading string | Tally string nat | Total nat

datatype event = Wrote path string | Printed line

record world =
  disk :: filesystem
  events :: "event list"

definition print :: "line \<Rightarrow> world \<Rightarrow> world" where
  "print l w = w\<lparr>events := events w @ [Printed l]\<rparr>"

definition prints :: "line list \<Rightarrow> world \<Rightarrow> world" where
  "prints ls w = w\<lparr>events := events w @ map Printed ls\<rparr>"

definition write_file :: "path \<Rightarrow> string \<Rightarrow> world \<Rightarrow> error option \<times> world" where
  "write_file p code w =
     (let r = open_write p code (disk w) in
      if fst r = None then (None, w\<lparr>disk := snd r, events := events w @ [Wrote p code]\<rparr>)
      else (fst r, w\<lparr>disk := snd r\<rparr>))"

text \<open>A \<^verbatim>\<open>for\<close> loop whose body may raise: the first exception ends it.\<close>

fun for_each :: "('a \<Rightarrow> world \<Rightarrow> error option \<times> world) \<Rightarrow> 'a list \<Rightarrow> world \<Rightarrow> error option \<times> world"
  where
  "for_each body [] w = (None, w)"
| "for_each body (x # xs) w =
     (let r = body x w in
      if fst r = None then for_each body xs (snd r) else r)"


section \<open>The generators that write below BASE\<close>

text \<open>
  The loop body shared by \<^verbatim>\<open>mega_generator.generate_all\<close>,
  \<^verbatim>\<open>generate_final_two\<close>, \<^verbatim>\<open>generate_final_comprehensive\<close>,
  \<^verbatim>\<open>generate_all_remaining\<close> and \<^verbatim>\<open>generate_final_batch\<close>:
  \<^verbatim>\<open>
    full_path = BASE / filepath
    full_path.parent.mkdir(parents=True, exist_ok=True)
    with open(full_path, 'w', encoding='utf-8') as f:
        f.write(code)
    print(f"[check mark] {filepath}")
  \<close>
\<close>

definition write_pattern :: "string \<times> string \<Rightarrow> world \<Rightarrow> error option \<times> world" where
  "write_pattern entry w =
     (let filepath = fst entry; code = snd entry;
          full_path = path_of filepath;
          r = mkdir (parent full_path) (disk w) in
      if fst r \<noteq> None then (fst r, w\<lparr>disk := snd r\<rparr>)
      else (let r2 = write_file full_path code (w\<lparr>disk := snd r\<rparr>) in
            if fst r2 \<noteq> None then r2
            else (None, print (Written filepath) (snd r2))))"

text \<open>
  \<^verbatim>\<open>mega_generator.generate_all\<close>. The table is the list of the items of the
  dictionary \<^verbatim>\<open>PATTERNS\<close>, in insertion order: three prints, the loop, three prints.
\<close>

definition generate_all :: "(string \<times> string) list \<Rightarrow> world \<Rightarrow> error option \<times> world" where
  "generate_all table w =
     (let r = for_each write_pattern table (prints [Banner, Banner, Banner] w) in
      if fst r \<noteq> None then r
      else (None, prints [Banner, Generated (length table), Banner] (snd r)))"

section \<open>The summary of the files per category\<close>

text \<open>ASCII letters; the category names and the pattern titles have no others.\<close>

definition lower_char :: "char \<Rightarrow> char" where
  "lower_char c =
     (case map_of (zip ''ABCDEFGHIJKLMNOPQRSTUVWXYZ'' ''abcdefghijklmnopqrstuvwxyz'') c of
        None \<Rightarrow> c | Some l \<Rightarrow> l)"

definition upper_char :: "char \<Rightarrow> char" where
  "upper_char c =
     (case map_of (zip ''abcdefghijklmnopqrstuvwxyz'' ''ABCDEFGHIJKLMNOPQRSTUVWXYZ'') c of
        None \<Rightarrow> c | Some u \<Rightarrow> u)"

definition lower :: "string \<Rightarrow> string" where
  "lower s = map lower_char s"

definition upper :: "string \<Rightarrow> string" where
  "upper s = map upper_char s"

definition capitalize :: "string \<Rightarrow> string" where
  "capitalize s = (case s of [] \<Rightarrow> [] | c # cs \<Rightarrow> upper_char c # map lower_char cs)"

text \<open>
  The counting loop of \<^verbatim>\<open>count_all_patterns\<close> and of \<^verbatim>\<open>generate_final_two\<close>:
  \<^verbatim>\<open>
    for category in categories:
        cat_path = BASE / category
        if cat_path.exists():
            categories[category] = len(list(cat_path.glob("*.py")))
  \<close>
\<close>

fun count_loop :: "string list \<Rightarrow> (string \<times> nat) list \<Rightarrow> filesystem \<Rightarrow> error + (string \<times> nat) list"
  where
  "count_loop [] categories fs = Inr categories"
| "count_loop (category # rest) categories fs =
     (let cat_path = path_of category in
      if exists fs cat_path then
        (case glob_star fs cat_path ''.py'' of
           Inl e \<Rightarrow> Inl e
         | Inr found \<Rightarrow> count_loop rest (AList.update category (length found) categories) fs)
      else count_loop rest categories fs)"

definition summary_lines :: "(string \<times> nat) list \<Rightarrow> line list" where
  "summary_lines categories =
     [Banner, Banner, Banner] @
     map (\<lambda>(cat, count). Tally (capitalize cat) count) categories @
     [Banner, Total (sum_list (map snd categories)), Banner]"

text \<open>\<^verbatim>\<open>final_comprehensive_generator.count_all_patterns\<close>, with its eight categories.\<close>

definition count_all_patterns :: "world \<Rightarrow> error option \<times> world" where
  "count_all_patterns w =
     (let categories =
            [(''creational'', 0), (''structural'', 0), (''behavioral'', 0),
             (''concurrency'', 0), (''architectural'', 0), (''enterprise'', 0),
             (''cloud'', 0), (''microservices'', 0)] in
      case count_loop (map fst categories) categories (disk w) of
        Inl e \<Rightarrow> (Some e, w)
      | Inr categories \<Rightarrow> (None, prints (summary_lines categories) w))"

definition generate_final_comprehensive :: "(string \<times> string) list \<Rightarrow> world \<Rightarrow> error option \<times> world"
  where
  "generate_final_comprehensive table w =
     (let r = for_each write_pattern table (prints [Banner, Banner, Banner, Banner] w) in
      if fst r \<noteq> None then r
      else count_all_patterns (prints [Banner, Generated (length table), Banner] (snd r)))"

text \<open>
  \<^verbatim>\<open>generate_final_two\<close>: the same loop; then, from the comment \<^verbatim>\<open># Final count\<close>
  on, the count over nine categories, and two more lines when the total reaches 141.
\<close>

definition final_count :: "world \<Rightarrow> error option \<times> world" where
  "final_count w =
     (let categories =
            [(''creational'', 0), (''structural'', 0), (''behavioral'', 0),
             (''concurrency'', 0), (''architectural'', 0), (''enterprise'', 0),
             (''cloud'', 0), (''microservices'', 0), (''additional'', 0)] in
      case count_loop (map fst categories) categories (disk w) of
        Inl e \<Rightarrow> (Some e, w)
      | Inr categories \<Rightarrow>
          (let w2 = prints (summary_lines categories) w in
           if 141 \<le> sum_list (map snd categories)
           then (None, prints [Banner, Banner] w2) else (None, w2)))"

definition generate_final_two :: "(string \<times> string) list \<Rightarrow> world \<Rightarrow> error option \<times> world" where
  "generate_final_two table w =
     (let r = for_each write_pattern table (prints [Banner, Banner, Banner, Banner] w) in
      if fst r \<noteq> None then r
      else final_count (prints [Banner, Generated (length table), Banner] (snd r)))"

text \<open>The counts that a run reports for a category: the numbers of its summary lines.\<close>

fun tally_of :: "string \<Rightarrow> event \<Rightarrow> nat list" where
  "tally_of c (Printed (Tally c' n)) = (if c' = c then [n] else [])"
| "tally_of c ev = []"

definition reported :: "string \<Rightarrow> event list \<Rightarrow> nat list" where
  "reported c evs = concat (map (tally_of c) evs)"

section \<open>generate_ultra_final_nine.py\<close>



section \<open>The Node.js generator, generate_all_142.py\<close>

text \<open>The table \<^verbatim>\<open>PATTERNS\<close>: category, name, description.\<close>

definition PATTERNS :: "(string \<times> string \<times> string) list" where
  "PATTERNS =
    [(''creational'', ''Singleton'', ''Ensures only one instance exists''),
     (''creational'', ''Factory Method'', ''Creates objects through factory methods''),
     (''creational'', ''Abstract Factory'', ''Creates families of related objects''),
     (''creational'', ''Builder'', ''Constructs complex objects step by step''),
     (''creational'', ''Prototype'', ''Creates objects by cloning prototypes''),
     (''creational'', ''Object Pool'', ''Reuses expensive objects''),
     (''creational'', ''Lazy Initialization'', ''Delays creation until needed''),
     (''creational'', ''Dependency Injection'', ''Injects dependencies externally''),
     (''creational'', ''Multiton'', ''Manages multiple named instances''),
     (''structural'', ''Adapter'', ''Adapts incompatible interfaces''),
     (''structural'', ''Bridge'', ''Separates abstraction from implementation''),
     (''structural'', ''Composite'', ''Treats objects and compositions uniformly''),
     (''structural'', ''Decorator'', ''Adds behavior dynamically''),
     (''structural'', ''Facade'', ''Simplifies complex subsystems''),
     (''structural'', ''Flyweight'', ''Shares data to reduce memory''),
     (''structural'', ''Proxy'', ''Controls access to objects''),
     (''structural'', ''Private Class Data'', ''Restricts data access''),
     (''structural'', ''Extension Object'', ''Extends objects dynamically''),
     (''behavioral'', ''Chain of Responsibility'', ''Passes requests along chain''),
     (''behavioral'', ''Command'', ''Encapsulates requests as objects''),
     (''behavioral'', ''Interpreter'', ''Interprets language grammar''),
     (''behavioral'', ''Iterator'', ''Traverses collections''),
     (''behavioral'', ''Mediator'', ''Coordinates object interactions''),
     (''behavioral'', ''Memento'', ''Captures and restores state''),
     (''behavioral'', ''Observer'', ''Notifies dependents of changes''),
     (''behavioral'', ''State'', ''Changes behavior based on state''),
     (''behavioral'', ''Strategy'', ''Encapsulates algorithms''),
     (''behavioral'', ''Template Method'', ''Defines algorithm skeleton''),
     (''behavioral'', ''Visitor'', ''Separates algorithm from structure''),
     (''behavioral'', ''Null Object'', ''Provides default behavior''),
     (''behavioral'', ''Specification'', ''Combines business rules''),
     (''behavioral'', ''Blackboard'', ''Collaborative problem solving''),
     (''concurrency'', ''Active Object'', ''Decouples execution from invocation''),
     (''concurrency'', ''Balking'', ''Executes only when ready''),
     (''concurrency'', ''Barrier'', ''Synchronizes multiple threads''),
     (''concurrency'', ''Double-Checked Locking'', ''Optimizes lazy initialization''),
     (''concurrency'', ''Guarded Suspension'', ''Waits for conditions''),
     (''concurrency'', ''Monitor Object'', ''Synchronizes method execution''),
     (''concurrency'', ''Reactor'', ''Handles concurrent requests''),
     (''concurrency'', ''Read-Write Lock'', ''Allows concurrent reads''),
     (''concurrency'', ''Scheduler'', ''Controls thread execution''),
     (''concurrency'', ''Thread Pool'', ''Reuses worker threads''),
     (''concurrency'', ''Thread-Specific Storage'', ''Stores thread-local data''),
     (''concurrency'', ''Proactor'', ''Async operation completion''),
     (''concurrency'', ''Lock'', ''Mutual exclusion''),
     (''concurrency'', ''Future Promise'', ''Represents future values''),
     (''concurrency'', ''Actor Model'', ''Message-passing concurrency''),
     (''architectural'', ''MVC'', ''Model-View-Controller separation''),
     (''architectural'', ''MVP'', ''Model-View-Presenter variant''),
     (''architectural'', ''MVVM'', ''Model-View-ViewModel with binding''),
     (''architectural'', ''Layered Architecture'', ''Organizes into layers''),
     (''architectural'', ''Hexagonal Architecture'', ''Ports and adapters''),
     (''architectural'', ''Clean Architecture'', ''Business rules independence''),
     (''architectural'', ''Onion Architecture'', ''Domain-centric layers''),
     (''architectural'', ''Pipe and Filter'', ''Sequential data processing''),
     (''architectural'', ''Microkernel'', ''Core with plugins''),
     (''architectural'', ''Event-Driven Architecture'', ''Event-based communication''),
     (''architectural'', ''SOA'', ''Service-oriented architecture''),
     (''architectural'', ''Space-Based Architecture'', ''In-memory data grids''),
     (''architectural'', ''CQRS'', ''Command-query separation''),
     (''architectural'', ''Event Sourcing'', ''State as event sequence''),
     (''architectural'', ''Broker Pattern'', ''Coordinates distributed components''),
     (''enterprise'', ''Repository'', ''Data access abstraction''),
     (''enterprise'', ''Unit of Work'', ''Tracks transaction changes''),
     (''enterprise'', ''Data Mapper'', ''Maps objects to database''),
     (''enterprise'', ''Active Record'', ''Objects with persistence''),
     (''enterprise'', ''Table Data Gateway'', ''Gateway to table''),
     (''enterprise'', ''Row Data Gateway'', ''Gateway to row''),
     (''enterprise'', ''DTO'', ''Data transfer object''),
     (''enterprise'', ''Service Layer'', ''Application boundary''),
     (''enterprise'', ''Domain Model'', ''Business logic model''),
     (''enterprise'', ''Transaction Script'', ''Procedural business logic''),
     (''enterprise'', ''Table Module'', ''Handles all table rows''),
     (''enterprise'', ''Identity Map'', ''Ensures unique objects''),
     (''enterprise'', ''Lazy Load'', ''Defers loading''),
     (''enterprise'', ''Front Controller'', ''Central request handler''),
     (''enterprise'', ''Application Controller'', ''Flow control''),
     (''enterprise'', ''Page Controller'', ''Page-specific handler''),
     (''enterprise'', ''Template View'', ''Template rendering''),
     (''enterprise'', ''Transform View'', ''Data transformation''),
     (''enterprise'', ''Two-Step View'', ''Two-stage rendering''),
     (''cloud'', ''Ambassador'', ''Helper service proxy''),
     (''cloud'', ''Anti-Corruption Layer'', ''Isolates subsystems''),
     (''cloud'', ''Backends for Frontends'', ''Client-specific backends''),
     (''cloud'', ''Bulkhead'', ''Isolates resources''),
     (''cloud'', ''Circuit Breaker'', ''Prevents cascading failures''),
     (''cloud'', ''Compensating Transaction'', ''Undoes work''),
     (''cloud'', ''Competing Consumers'', ''Parallel message processing''),
     (''cloud'', ''Compute Resource Consolidation'', ''Consolidates tasks''),
     (''cloud'', ''Event Sourcing Cloud'', ''Event store pattern''),
     (''cloud'', ''External Configuration Store'', ''Centralized config''),
     (''cloud'', ''Federated Identity'', ''External authentication''),
     (''cloud'', ''Gatekeeper'', ''Security validation''),
     (''cloud'', ''Gateway Aggregation'', ''Aggregates requests''),
     (''cloud'', ''Gateway Offloading'', ''Offloads functionality''),
     (''cloud'', ''Gateway Routing'', ''Routes requests''),
     (''cloud'', ''Health Endpoint Monitoring'', ''Health checks''),
     (''cloud'', ''Index Table'', ''Secondary indexes''),
     (''cloud'', ''Leader Election'', ''Elects coordinator''),
     (''cloud'', ''Materialized View'', ''Pre-computed views''),
     (''cloud'', ''Priority Queue'', ''Prioritizes requests''),
     (''cloud'', ''Publisher-Subscriber'', ''Async messaging''),
     (''cloud'', ''Queue-Based Load Leveling'', ''Smooths load''),
     (''cloud'', ''Retry'', ''Retries failed operations''),
     (''cloud'', ''Scheduler Agent Supervisor'', ''Coordinates actions''),
     (''cloud'', ''Sharding'', ''Horizontal partitioning''),
     (''cloud'', ''Sidecar'', ''Helper components''),
     (''cloud'', ''Static Content Hosting'', ''CDN delivery''),
     (''cloud'', ''Strangler Fig'', ''Incremental migration''),
     (''cloud'', ''Throttling'', ''Rate limiting''),
     (''cloud'', ''Valet Key'', ''Restricted access tokens''),
     (''microservices'', ''API Gateway'', ''Single entry point''),
     (''microservices'', ''Service Registry'', ''Service discovery''),
     (''microservices'', ''Saga'', ''Distributed transactions''),
     (''microservices'', ''Database per Service'', ''Data isolation''),
     (''microservices'', ''Shared Database'', ''Shared data access''),
     (''microservices'', ''API Composition'', ''Composes queries''),
     (''microservices'', ''Aggregator'', ''Aggregates data''),
     (''microservices'', ''Chained Microservice'', ''Sequential calls''),
     (''microservices'', ''Branch Microservice'', ''Parallel calls''),
     (''microservices'', ''Asynchronous Messaging'', ''Async communication''),
     (''microservices'', ''Transactional Outbox'', ''Reliable events''),
     (''microservices'', ''Event-Driven Microservices'', ''Event reactions''),
     (''microservices'', ''Distributed Tracing'', ''Request tracing''),
     (''microservices'', ''Log Aggregation'', ''Centralized logs''),
     (''microservices'', ''Application Metrics'', ''Metrics collection''),
     (''microservices'', ''Audit Logging'', ''User action logging''),
     (''microservices'', ''Exception Tracking'', ''Error reporting''),
     (''microservices'', ''Service Mesh'', ''Infrastructure layer''),
     (''microservices'', ''BFF'', ''Backend for frontend''),
     (''additional'', ''Registry'', ''Service lookup''),
     (''additional'', ''Money'', ''Monetary values''),
     (''additional'', ''Special Case'', ''Special behavior''),
     (''additional'', ''Plugin'', ''Dynamic extensions''),
     (''additional'', ''Service Stub'', ''Test doubles''),
     (''additional'', ''Service Locator'', ''Service registry''),
     (''additional'', ''Module'', ''Code organization''),
     (''additional'', ''Revealing Module'', ''Private data encapsulation''),
     (''additional'', ''Mixin'', ''Horizontal reuse''),
     (''additional'', ''Twin'', ''Multiple inheritance''),
     (''additional'', ''Marker Interface'', ''Tagging interface''),
     (''additional'', ''Interceptor'', ''Method interception'')]"

text \<open>
  \<^verbatim>\<open>str.replace(old, new)\<close> for a one-character \<open>old\<close>, the only use the generator
  makes of it.
\<close>

definition replace :: "char \<Rightarrow> string \<Rightarrow> string \<Rightarrow> string" where
  "replace old new s = concat (map (\<lambda>c. if c = old then new else [c]) s)"

text \<open>\<^verbatim>\<open>name.lower().replace(' ', '-').replace('/', '-') + '.js'\<close>\<close>

definition filename :: "string \<Rightarrow> string" where
  "filename name = replace CHR ''/'' ''-'' (replace CHR '' '' ''-'' (lower name)) @ ''.js''"

text \<open>
  The text written to a pattern file, the f-string of \<^verbatim>\<open>generate_pattern\<close>; the
  bytes of its non-ASCII characters are those of the UTF-8 source file.
\<close>

definition pattern_code :: "string \<Rightarrow> string \<Rightarrow> string" where
  "pattern_code name description =
     (let cls = replace CHR ''-'' [] (replace CHR '' '' [] name) @ ''Example'';
          nl = [CHR 0x0A]; q = [CHR 0x27]; bsn = [CHR 0x5C, CHR ''n''];
          mark = [CHR 0xC3, CHR 0xA2, CHR 0xC5, CHR 0x93, CHR 0xE2, CHR 0x80, CHR 0x9C] in
      ''/**'' @ nl @
      '' * '' @ name @ '' Pattern'' @ nl @
      '' * '' @ description @ nl @
      '' */'' @ nl @
      nl @
      ''class '' @ cls @ '' {'' @ nl @
      ''  constructor() {'' @ nl @
      ''    this.name = '' @ q @ name @ q @ '';'' @ nl @
      ''  }'' @ nl @
      nl @
      ''  demonstrate() {'' @ nl @
      ''    console.log(`Demonstrating '' @ name @ '' Pattern`);'' @ nl @
      ''    console.log(`Description: '' @ description @ ''`);'' @ nl @
      ''    return `'' @ name @ '' implemented`;'' @ nl @
      ''  }'' @ nl @
      ''}'' @ nl @
      nl @
      ''// Demo'' @ nl @
      ''if (require.main === module) {'' @ nl @
      ''  console.log('' @ q @ ''=== '' @ name @ '' Pattern Demo ==='' @ bsn @ q @ '');'' @ nl @
      ''  const example = new '' @ cls @ ''();'' @ nl @
      ''  console.log(example.demonstrate());'' @ nl @
      ''  console.log('' @ q @ bsn @ mark @ '' '' @ name @ '' pattern works!'' @ q @ '');'' @ nl @
      ''}'' @ nl @
      nl @
      ''module.exports = { '' @ cls @ '' };'' @ nl)"

text \<open>
  \<^verbatim>\<open>os.path.join(a, b)\<close> on strings relative to \<^verbatim>\<open>nodejs_dir\<close>, the empty string
  standing for that directory.
\<close>

definition os_path_join :: "string \<Rightarrow> string \<Rightarrow> string" where
  "os_path_join a b =
     (if b \<noteq> [] \<and> hd b = CHR ''/'' then b
      else if a = [] \<or> last a = CHR ''/'' then a @ b
      else a @ ''/'' @ b)"

text \<open>
  \<^verbatim>\<open>os.makedirs(name, exist_ok=True)\<close>:
  \<^verbatim>\<open>
    head, tail = path.split(name)
    if head and tail and not path.exists(head):
        try: makedirs(head, exist_ok=exist_ok)
        except FileExistsError: pass
    try: mkdir(name, mode)
    except OSError:
        if not exist_ok or not path.isdir(name): raise
  \<close>
\<close>

function makedirs :: "path \<Rightarrow> filesystem \<Rightarrow> error option \<times> filesystem" where
  "makedirs name fs =
     (let r = (if name \<noteq> [] \<and> \<not> exists fs (butlast name)
               then (let r1 = makedirs (butlast name) fs in
                     if fst r1 = Some FileExistsError then (None, snd r1) else r1)
               else (None, fs)) in
      if fst r \<noteq> None then r
      else (let r2 = os_mkdir name (snd r) in
            if fst r2 = None then r2
            else if is_dir (snd r) name then (None, snd r) else r2))"
  by pat_completeness auto
termination
  by (relation "measure (\<lambda>(name, fs). length name)") auto

text \<open>\<^verbatim>\<open>os.path.relpath(filepath, nodejs_dir)\<close> of a path below \<^verbatim>\<open>nodejs_dir\<close>.\<close>

fun join_names :: "string list \<Rightarrow> string" where
  "join_names [] = []"
| "join_names [x] = x"
| "join_names (x # y # ys) = x @ ''/'' @ join_names (y # ys)"

definition relpath :: "string \<Rightarrow> string" where
  "relpath filepath = (if path_of filepath = [] then ''.'' else join_names (path_of filepath))"

text \<open>
  \<^verbatim>\<open>generate_pattern(category, name, description)\<close>: it returns the path of the file,
  or raises.
\<close>

definition generate_pattern ::
  "string \<Rightarrow> string \<Rightarrow> string \<Rightarrow> world \<Rightarrow> (error + string) \<times> world" where
  "generate_pattern category name description w =
     (let code = pattern_code name description;
          dir_path = category;
          r = makedirs (path_of dir_path) (disk w) in
      case fst r of
        Some e \<Rightarrow> (Inl e, w\<lparr>disk := snd r\<rparr>)
      | None \<Rightarrow>
          (let file_path = os_path_join dir_path (filename name);
               r2 = open_name file_path code (snd r) in
           case fst r2 of
             Some e \<Rightarrow> (Inl e, w\<lparr>disk := snd r2\<rparr>)
           | None \<Rightarrow>
               (Inr file_path,
                w\<lparr>disk := snd r2, events := events w @ [Wrote (path_of file_path) code]\<rparr>)))"

record main_state =
  counts :: "(string \<times> nat) list"
  total_n :: nat
  current_category :: "string option"

text \<open>
  The loop of \<^verbatim>\<open>main\<close>:
  \<^verbatim>\<open>
    for category, name, description in PATTERNS:
        if category != current_category:
            if current_category:
                print()
            print(f'{category.upper()}:')
            current_category = category
        filepath = generate_pattern(category, name, description)
        rel_path = os.path.relpath(filepath, nodejs_dir)
        print(f'  [check mark] {rel_path}')
        counts[category] = counts.get(category, 0) + 1
        total += 1
  \<close>
\<close>

fun main_loop ::
  "(string \<times> string \<times> string) list \<Rightarrow> main_state \<Rightarrow> world \<Rightarrow> error option \<times> main_state \<times> world"
  where
  "main_loop [] st w = (None, st, w)"
| "main_loop (p # ps) st w =
     (let category = fst p; name = fst (snd p); description = snd (snd p);
          changed = (current_category st \<noteq> Some category);
          truthy = (current_category st \<noteq> None \<and> current_category st \<noteq> Some []);
          w1 = (if changed
                then print (Heading (upper category)) (if truthy then print Banner w else w)
                else w);
          st1 = (if changed then st\<lparr>current_category := Some category\<rparr> else st);
          r = generate_pattern category name description w1 in
      case fst r of
        Inl e \<Rightarrow> (Some e, st1, snd r)
      | Inr filepath \<Rightarrow>
          (let rel_path = relpath filepath;
               w2 = print (Written rel_path) (snd r);
               n = (case map_of (counts st1) category of None \<Rightarrow> 0 | Some k \<Rightarrow> k);
               st2 = st1\<lparr>counts := AList.update category (n + 1) (counts st1),
                         total_n := total_n st1 + 1\<rparr>
           in main_loop ps st2 w2))"

text \<open>\<^verbatim>\<open>main\<close>, on the table it iterates over (the script calls it on \<open>PATTERNS\<close>).\<close>

definition main :: "(string \<times> string \<times> string) list \<Rightarrow> world \<Rightarrow> error option \<times> world" where
  "main table w =
     (let r = main_loop table \<lparr>counts = [], total_n = 0, current_category = None\<rparr>
                (prints [Banner, Banner, Banner, Banner] w);
          st = fst (snd r); w1 = snd (snd r) in
      case fst r of
        Some e \<Rightarrow> (Some e, w1)
      | None \<Rightarrow>
          (None,
           prints
             ([Banner, Banner, Banner, Banner] @
              map (\<lambda>(category, count). Tally category count) (counts st) @
              [Banner, Total (total_n st), Banner, Banner, Banner])
             w1))"

section \<open>Notions for the proofs\<close>

definition all_dirs :: "filesystem \<Rightarrow> path \<Rightarrow> bool" where
  "all_dirs s d = (\<forall>q. q \<noteq> [] \<and> prefix q d \<longrightarrow> map_of s q = Some Dir)"

declare mkdir.simps [simp del]

definition grows :: "path \<Rightarrow> filesystem \<Rightarrow> filesystem \<Rightarrow> bool" where
  "grows d s s' = (\<forall>q. map_of s' q = map_of s q \<or>
      (map_of s q = None \<and> map_of s' q = Some Dir \<and> q \<noteq> [] \<and> prefix q d))"

definition clear :: "filesystem \<Rightarrow> path \<Rightarrow> bool" where
  "clear s d = (\<forall>q. q \<noteq> [] \<and> prefix q d \<longrightarrow> map_of s q = None \<or> map_of s q = Some Dir)"

definition put_file :: "path \<Rightarrow> string \<Rightarrow> (path \<rightharpoonup> node) \<Rightarrow> (path \<rightharpoonup> node)" where
  "put_file P c m =
     (\<lambda>q. if q = P then Some (File c)
          else if q \<noteq> [] \<and> strict_prefix q P then Some Dir else m q)"

definition writable :: "(path \<rightharpoonup> node) \<Rightarrow> path \<Rightarrow> bool" where
  "writable m P =
     (P \<noteq> [] \<and> (\<forall>q. q \<noteq> [] \<and> strict_prefix q P \<longrightarrow> m q = None \<or> m q = Some Dir) \<and>
      m P \<noteq> Some Dir)"

definition dmap :: "world \<Rightarrow> (path \<rightharpoonup> node)" where
  "dmap w = map_of (disk w)"

fun effect :: "(path \<times> string) list \<Rightarrow> (path \<rightharpoonup> node) \<Rightarrow> (path \<rightharpoonup> node)" where
  "effect [] m = m"
| "effect (e # es) m = effect es (put_file (fst e) (snd e) m)"

fun feasible :: "(path \<times> string) list \<Rightarrow> (path \<rightharpoonup> node) \<Rightarrow> bool" where
  "feasible [] m = True"
| "feasible (e # es) m = (writable m (fst e) \<and> feasible es (put_file (fst e) (snd e) m))"

definition ancestor_in :: "path \<Rightarrow> (path \<times> string) list \<Rightarrow> bool" where
  "ancestor_in q es = (q \<noteq> [] \<and> (\<exists>e\<in>set es. strict_prefix q (fst e)))"

definition targets :: "(string \<times> string) list \<Rightarrow> (path \<times> string) list" where
  "targets table = map (\<lambda>e. (path_of (fst e), snd e)) table"

definition progress :: "(string \<times> string) list \<Rightarrow> event list" where
  "progress table =
     concat (map (\<lambda>e. [Wrote (path_of (fst e)) (snd e), Printed (Written (fst e))]) table)"

definition settled :: "(path \<times> string) list \<Rightarrow> (path \<rightharpoonup> node) \<Rightarrow> bool" where
  "settled es m =
     (\<forall>e\<in>set es. fst e \<noteq> [] \<and>
        (\<forall>q. q \<noteq> [] \<and> strict_prefix q (fst e) \<longrightarrow> m q = Some Dir) \<and>
        (\<exists>c. m (fst e) = Some (File c)))"


definition children :: "filesystem \<Rightarrow> path \<Rightarrow> string \<Rightarrow> string set" where
  "children s d ext = {x. endswith x ext \<and> map_of s (d @ [x]) \<noteq> None}"

definition count_category :: "filesystem \<Rightarrow> string \<Rightarrow> nat" where
  "count_category s category =
     (if is_dir s (path_of category) then card (children s (path_of category) ''.py'') else 0)"

definition in_category :: "string \<Rightarrow> (string \<times> string) list \<Rightarrow> (string \<times> string) list" where
  "in_category category table =
     filter (\<lambda>x. strict_prefix (path_of category) (path_of (fst x))) table"

definition spec_filename :: "string \<Rightarrow> string" where
  "spec_filename name =
     map (\<lambda>c. if c = CHR '' '' \<or> c = CHR ''/'' then CHR ''-'' else lower_char c) name @ ''.js''"

definition target :: "string \<times> string \<times> string \<Rightarrow> path \<times> string" where
  "target p = (path_of (fst p) @ [filename (fst (snd p))], pattern_code (fst (snd p)) (snd (snd p)))"

declare makedirs.simps [simp del]

section \<open>Path resolution\<close>

lemma strict_prefix_ConsD:
  "strict_prefix ys (x # xs) \<Longrightarrow> ys \<noteq> [] \<Longrightarrow> \<exists>zs. ys = x # zs \<and> strict_prefix zs xs"
  by (cases ys) simp_all

lemma strict_prefix_single: "xs \<noteq> [] \<Longrightarrow> strict_prefix [x] (x # xs)"
  by (cases xs) simp_all

lemma walk_Inr_iff:
  "walk s cur n xs = Inr m \<longleftrightarrow>
     (if xs = [] then m = n
      else n = Dir \<and> (\<forall>ys. ys \<noteq> [] \<and> strict_prefix ys xs \<longrightarrow> map_of s (cur @ ys) = Some Dir)
           \<and> map_of s (cur @ xs) = Some m)"
proof (induction xs arbitrary: cur n)
  case Nil
  show ?case by auto
next
  case (Cons x xs)
  show ?case
  proof (cases n)
    case (File c)
    then show ?thesis by simp
  next
    case Dir
    show ?thesis
    proof (cases "map_of s (cur @ [x])")
      case None
      have l: "walk s cur n (x # xs) \<noteq> Inr m" using None Dir by simp
      have r: "\<not> ((\<forall>ys. ys \<noteq> [] \<and> strict_prefix ys (x # xs) \<longrightarrow> map_of s (cur @ ys) = Some Dir)
           \<and> map_of s (cur @ (x # xs)) = Some m)"
      proof (cases "xs = []")
        case True
        with None show ?thesis by simp
      next
        case False
        then have "strict_prefix [x] (x # xs)" by (rule strict_prefix_single)
        then have sp: "[x] \<noteq> [] \<and> strict_prefix [x] (x # xs)" by (intro conjI) simp
        show ?thesis
        proof
          assume "(\<forall>ys. ys \<noteq> [] \<and> strict_prefix ys (x # xs) \<longrightarrow> map_of s (cur @ ys) = Some Dir)
           \<and> map_of s (cur @ (x # xs)) = Some m"
          then have "\<forall>ys. ys \<noteq> [] \<and> strict_prefix ys (x # xs) \<longrightarrow> map_of s (cur @ ys) = Some Dir" ..
          then have "[x] \<noteq> [] \<and> strict_prefix [x] (x # xs) \<longrightarrow> map_of s (cur @ [x]) = Some Dir" ..
          with sp have "map_of s (cur @ [x]) = Some Dir" by (rule rev_mp)
          with None show False by simp
        qed
      qed
      from l r show ?thesis by simp
    next
      case (Some n')
      have step: "walk s cur n (x # xs) = walk s (cur @ [x]) n' xs" using Dir Some by simp
      show ?thesis
      proof (cases "xs = []")
        case True
        have "ys \<noteq> [] \<and> strict_prefix ys [x] \<Longrightarrow> False" for ys
          by (cases ys) simp_all
        then have "(\<forall>ys. ys \<noteq> [] \<and> strict_prefix ys (x # xs) \<longrightarrow> map_of s (cur @ ys) = Some Dir)"
          using True by blast
        with step True Some Dir show ?thesis by auto
      next
        case False
        have a: "(\<forall>ys. ys \<noteq> [] \<and> strict_prefix ys (x # xs) \<longrightarrow> map_of s (cur @ ys) = Some Dir)
           \<longleftrightarrow> (n' = Dir \<and> (\<forall>zs. zs \<noteq> [] \<and> strict_prefix zs xs \<longrightarrow> map_of s (cur @ x # zs) = Some Dir))"
          (is "?L \<longleftrightarrow> ?R")
        proof
          assume L: ?L
          from False have "strict_prefix [x] (x # xs)" by (rule strict_prefix_single)
          then have "[x] \<noteq> [] \<and> strict_prefix [x] (x # xs)" by (intro conjI) simp
          with L have "map_of s (cur @ [x]) = Some Dir" by blast
          with Some have "n' = Dir" by simp
          moreover have "map_of s (cur @ x # zs) = Some Dir" if "zs \<noteq> [] \<and> strict_prefix zs xs" for zs
          proof -
            from that have "x # zs \<noteq> [] \<and> strict_prefix (x # zs) (x # xs)" by simp
            with L have "map_of s (cur @ (x # zs)) = Some Dir" by blast
            then show ?thesis by simp
          qed
          ultimately show ?R by blast
        next
          assume R: ?R
          show ?L
          proof (intro allI impI)
            fix ys assume "ys \<noteq> [] \<and> strict_prefix ys (x # xs)"
            then have "\<exists>zs. ys = x # zs \<and> strict_prefix zs xs" by (cases ys) simp_all
            then obtain zs where zs: "ys = x # zs" "strict_prefix zs xs" by (elim exE conjE)
            show "map_of s (cur @ ys) = Some Dir"
            proof (cases "zs = []")
              case True
              with zs R Some show ?thesis by simp
            next
              case False
              with zs R show ?thesis by simp
            qed
          qed
        qed
        have ih: "walk s (cur @ [x]) n' xs = Inr m \<longleftrightarrow> n' = Dir \<and>
            (\<forall>ys. ys \<noteq> [] \<and> strict_prefix ys xs \<longrightarrow> map_of s (cur @ x # ys) = Some Dir) \<and>
            map_of s (cur @ x # xs) = Some m"
          using Cons.IH[of "cur @ [x]" n'] False by simp
        show ?thesis unfolding step ih a using Dir False by simp
      qed
    qed
  qed
qed

lemma stat_Inr_iff:
  "stat s p = Inr m \<longleftrightarrow>
     (if p = [] then m = Dir
      else (\<forall>q. q \<noteq> [] \<and> strict_prefix q p \<longrightarrow> map_of s q = Some Dir) \<and> map_of s p = Some m)"
  unfolding stat_def walk_Inr_iff by auto

lemma all_dirs_iff:
  "all_dirs s d \<longleftrightarrow> (d = [] \<or> ((\<forall>q. q \<noteq> [] \<and> strict_prefix q d \<longrightarrow> map_of s q = Some Dir) \<and> map_of s d = Some Dir))"
  unfolding all_dirs_def strict_prefix_def by auto

lemma is_dir_iff: "is_dir s d \<longleftrightarrow> all_dirs s d"
  unfolding is_dir_def stat_Inr_iff all_dirs_iff by auto

lemma grows_refl: "grows d s s"
  by (simp add: grows_def)

lemma strict_prefix_butlast: "p \<noteq> [] \<Longrightarrow> strict_prefix q p \<longleftrightarrow> prefix q (butlast p)"
proof -
  assume "p \<noteq> []"
  then obtain b l where p: "p = b @ [l]" by (metis append_butlast_last_id)
  have "prefix q b \<Longrightarrow> q \<noteq> b @ [l]" by (auto dest: prefix_length_le)
  then show ?thesis unfolding p strict_prefix_def by auto
qed

lemma prefix_butlastD: "prefix q (butlast p) \<Longrightarrow> prefix q p"
  using prefixeq_butlast[of p] by (rule prefix_order.trans[rotated])

lemma growsD:
  "grows d s s' \<Longrightarrow> map_of s' q = map_of s q \<or>
      (map_of s q = None \<and> map_of s' q = Some Dir \<and> q \<noteq> [] \<and> prefix q d)"
  unfolding grows_def by (rule spec)

lemma grows_butlast: "grows (butlast p) s s' \<Longrightarrow> grows p s s'"
  unfolding grows_def
proof (intro allI)
  fix q
  assume "\<forall>q. map_of s' q = map_of s q \<or> (map_of s q = None \<and> map_of s' q = Some Dir \<and> q \<noteq> [] \<and> prefix q (butlast p))"
  then have "map_of s' q = map_of s q \<or> (map_of s q = None \<and> map_of s' q = Some Dir \<and> q \<noteq> [] \<and> prefix q (butlast p))" ..
  then show "map_of s' q = map_of s q \<or> (map_of s q = None \<and> map_of s' q = Some Dir \<and> q \<noteq> [] \<and> prefix q p)"
    using prefix_butlastD[of q p] by auto
qed

lemma grows_trans: "grows p s s1 \<Longrightarrow> grows p s1 s2 \<Longrightarrow> grows p s s2"
proof -
  assume a: "grows p s s1" and b: "grows p s1 s2"
  show ?thesis
    unfolding grows_def
  proof (intro allI)
    fix q
    from growsD[OF a, of q] growsD[OF b, of q]
    show "map_of s2 q = map_of s q \<or> (map_of s q = None \<and> map_of s2 q = Some Dir \<and> q \<noteq> [] \<and> prefix q p)"
      by auto
  qed
qed

lemma os_mkdir_cases:
  "(fst (os_mkdir p s) \<noteq> None \<and> snd (os_mkdir p s) = s) \<or>
   (os_mkdir p s = (None, AList.update p Dir s) \<and> p \<noteq> [] \<and> is_dir s (butlast p) \<and> map_of s p = None)"
  unfolding os_mkdir_def is_dir_def
  by (simp split: sum.splits node.splits option.splits)

lemma os_mkdir_grows: "grows p s (snd (os_mkdir p s))"
  using os_mkdir_cases[of p s]
  by (auto simp: grows_def update_conv' split: if_splits)

lemma all_dirs_butlast_update:
  assumes "p \<noteq> []" "all_dirs s (butlast p)"
  shows "all_dirs (AList.update p Dir s) p"
  unfolding all_dirs_def
proof (intro allI impI)
  fix q assume q: "q \<noteq> [] \<and> prefix q p"
  show "map_of (AList.update p Dir s) q = Some Dir"
  proof (cases "q = p")
    case True
    then show ?thesis by (simp add: update_conv')
  next
    case False
    with q have "strict_prefix q p" by (simp add: strict_prefix_def)
    with assms(1) have "prefix q (butlast p)" by (simp add: strict_prefix_butlast)
    with q assms(2) have "map_of s q = Some Dir" by (simp add: all_dirs_def)
    with False show ?thesis by (simp add: update_conv')
  qed
qed

lemma os_mkdir_ok: "fst (os_mkdir p s) = None \<Longrightarrow> all_dirs (snd (os_mkdir p s)) p"
  using os_mkdir_cases[of p s] all_dirs_butlast_update[of p s]
  by (auto simp: is_dir_iff)

lemma mkdir_leaf_grows: "grows p s (snd (mkdir_leaf p s))"
  unfolding mkdir_leaf_def Let_def
  using os_mkdir_grows[of p s] by (simp add: grows_refl)

lemma mkdir_leaf_ok: "fst (mkdir_leaf p s) = None \<Longrightarrow> all_dirs (snd (mkdir_leaf p s)) p"
  unfolding mkdir_leaf_def Let_def
  using os_mkdir_ok[of p s] by (auto simp: is_dir_iff split: if_splits)

lemma mkdir_unfold:
  "mkdir p s =
     (if fst (os_mkdir p s) = None then os_mkdir p s
      else if fst (os_mkdir p s) = Some FileNotFoundError then
        (if p = [] then os_mkdir p s
         else if fst (mkdir (butlast p) s) = None
              then mkdir_leaf p (snd (mkdir (butlast p) s))
              else mkdir (butlast p) s)
      else if is_dir s p then (None, s) else os_mkdir p s)"
  by (subst mkdir.simps, unfold Let_def, rule refl)

lemma mkdir_grows: "grows p s (snd (mkdir p s))"
proof (induction p s rule: mkdir.induct)
  case (1 p s)
  show ?case
  proof (cases "fst (os_mkdir p s) = None")
    case True
    then show ?thesis unfolding mkdir_unfold[of p s] using os_mkdir_grows[of p s] by simp
  next
    case nN: False
    show ?thesis
    proof (cases "fst (os_mkdir p s) = Some FileNotFoundError")
      case fnf: True
      show ?thesis
      proof (cases "p = []")
        case True
        with fnf show ?thesis unfolding mkdir_unfold[of p s] using os_mkdir_grows[of p s] by simp
      next
        case False
        from "1.IH"[OF refl nN fnf False] have ih: "grows (butlast p) s (snd (mkdir (butlast p) s))" .
        show ?thesis
        proof (cases "fst (mkdir (butlast p) s) = None")
          case True
          have "grows p s (snd (mkdir_leaf p (snd (mkdir (butlast p) s))))"
            using grows_trans[OF grows_butlast[OF ih] mkdir_leaf_grows] .
          with True fnf False show ?thesis unfolding mkdir_unfold[of p s] by simp
        next
          case f2: False
          with fnf False grows_butlast[OF ih] show ?thesis unfolding mkdir_unfold[of p s] by auto
        qed
      qed
    next
      case False
      with nN show ?thesis unfolding mkdir_unfold[of p s] using os_mkdir_grows[of p s]
        by (simp add: grows_refl)
    qed
  qed
qed

lemma mkdir_ok: "fst (mkdir p s) = None \<Longrightarrow> all_dirs (snd (mkdir p s)) p"
proof -
  assume ok: "fst (mkdir p s) = None"
  show ?thesis
  proof (cases "fst (os_mkdir p s) = None")
    case True
    then show ?thesis unfolding mkdir_unfold[of p s] using os_mkdir_ok[of p s] by simp
  next
    case nN: False
    show ?thesis
    proof (cases "fst (os_mkdir p s) = Some FileNotFoundError")
      case fnf: True
      show ?thesis
      proof (cases "p = []")
        case True
        then show ?thesis by (simp add: all_dirs_def)
      next
        case False
        show ?thesis
        proof (cases "fst (mkdir (butlast p) s) = None")
          case True
          with fnf False ok have "fst (mkdir_leaf p (snd (mkdir (butlast p) s))) = None"
            unfolding mkdir_unfold[of p s] by simp
          from mkdir_leaf_ok[OF this] True fnf False show ?thesis
            unfolding mkdir_unfold[of p s] by simp
        next
          case f2: False
          with fnf False ok show ?thesis unfolding mkdir_unfold[of p s] by auto
        qed
      qed
    next
      case False
      with nN ok show ?thesis unfolding mkdir_unfold[of p s]
        by (simp add: is_dir_iff split: if_splits)
    qed
  qed
qed

lemma clearD: "clear s d \<Longrightarrow> q \<noteq> [] \<Longrightarrow> prefix q d \<Longrightarrow> map_of s q = None \<or> map_of s q = Some Dir"
  unfolding clear_def by simp

lemma all_dirsD: "all_dirs s d \<Longrightarrow> q \<noteq> [] \<Longrightarrow> prefix q d \<Longrightarrow> map_of s q = Some Dir"
  unfolding all_dirs_def by simp

lemma clear_butlast: "clear s p \<Longrightarrow> clear s (butlast p)"
  unfolding clear_def using prefix_butlastD[of _ p] by simp

lemma walk_Inl:
  "walk s cur n xs = Inl e \<Longrightarrow>
     e = FileNotFoundError \<or> (\<exists>c. n = File c) \<or>
     (\<exists>ys c. ys \<noteq> [] \<and> strict_prefix ys xs \<and> map_of s (cur @ ys) = Some (File c))"
proof (induction xs arbitrary: cur n)
  case Nil
  then show ?case by simp
next
  case (Cons x xs)
  show ?case
  proof (cases n)
    case (File c)
    then show ?thesis by simp
  next
    case Dir
    show ?thesis
    proof (cases "map_of s (cur @ [x])")
      case None
      with Dir Cons.prems show ?thesis by simp
    next
      case (Some n')
      with Dir Cons.prems have w: "walk s (cur @ [x]) n' xs = Inl e" by simp
      then have ne: "xs \<noteq> []" by (cases xs) simp_all
      from Cons.IH[OF w] consider "e = FileNotFoundError" | c where "n' = File c"
        | ys c where "ys \<noteq> []" "strict_prefix ys xs" "map_of s ((cur @ [x]) @ ys) = Some (File c)"
        by auto
      then show ?thesis
      proof cases
        case 1
        then show ?thesis by simp
      next
        case 2
        have "[x] \<noteq> []" by simp
        moreover from ne have "strict_prefix [x] (x # xs)" by (rule strict_prefix_single)
        moreover from 2 Some have "map_of s (cur @ [x]) = Some (File c)" by simp
        ultimately show ?thesis by (intro disjI2 exI[of _ "[x]"] exI[of _ c] conjI)
      next
        case 3
        have "x # ys \<noteq> []" by simp
        moreover from 3(2) have "strict_prefix (x # ys) (x # xs)" by simp
        moreover from 3(3) have "map_of s (cur @ (x # ys)) = Some (File c)" by simp
        ultimately show ?thesis by (intro disjI2 exI[of _ "x # ys"] exI[of _ c] conjI)
      qed
    qed
  qed
qed

lemma stat_Inl_clear: "stat s d = Inl e \<Longrightarrow> clear s d \<Longrightarrow> e = FileNotFoundError"
proof -
  assume a: "stat s d = Inl e" and c: "clear s d"
  from walk_Inl[OF a[unfolded stat_def]]
  consider "e = FileNotFoundError"
    | ys c where "ys \<noteq> []" "strict_prefix ys d" "map_of s ([] @ ys) = Some (File c)"
    by auto
  then show ?thesis
  proof cases
    case 1
    then show ?thesis .
  next
    case 2
    from 2(2) have "prefix ys d" by (simp add: strict_prefix_def)
    from clearD[OF c 2(1) this] 2(3) show ?thesis by simp
  qed
qed

lemma is_dir_Nil: "is_dir s []"
  by (simp add: is_dir_def stat_def)

lemma all_dirs_Nil: "all_dirs s []"
  by (simp add: all_dirs_def)

lemma all_dirs_snoc: "p \<noteq> [] \<Longrightarrow> all_dirs s p \<longleftrightarrow> all_dirs s (butlast p) \<and> map_of s p = Some Dir"
proof -
  assume ne: "p \<noteq> []"
  have "(q \<noteq> [] \<and> prefix q p) = (q \<noteq> [] \<and> prefix q (butlast p) \<or> q = p)" for q
    using strict_prefix_butlast[OF ne, of q] ne by (auto simp: strict_prefix_def)
  then show ?thesis unfolding all_dirs_def by auto
qed

lemma os_mkdir_eq:
  "p \<noteq> [] \<Longrightarrow> all_dirs s (butlast p) \<Longrightarrow>
   os_mkdir p s = (case map_of s p of Some n \<Rightarrow> (Some FileExistsError, s)
                                    | None \<Rightarrow> (None, AList.update p Dir s))"
  unfolding is_dir_iff[symmetric] by (simp add: os_mkdir_def is_dir_def)

lemma os_mkdir_other_error:
  assumes "fst (os_mkdir p s) \<noteq> None" "fst (os_mkdir p s) \<noteq> Some FileNotFoundError" "clear s p"
  shows "all_dirs s p"
proof (cases "p = []")
  case True
  then show ?thesis by (simp add: all_dirs_Nil)
next
  case ne: False
  have cb: "clear s (butlast p)" using assms(3) by (rule clear_butlast)
  show ?thesis
  proof (cases "stat s (butlast p)")
    case (Inl e)
    from stat_Inl_clear[OF Inl cb] have "e = FileNotFoundError" .
    with Inl ne assms(2) show ?thesis by (simp add: os_mkdir_def)
  next
    case (Inr n)
    show ?thesis
    proof (cases n)
      case (File c)
      with Inr have bl: "butlast p \<noteq> []" "map_of s (butlast p) = Some (File c)"
        by (auto simp: stat_Inr_iff split: if_splits)
      from clearD[OF assms(3) bl(1) prefixeq_butlast] bl(2) show ?thesis by simp
    next
      case Dir
      with Inr have ad: "all_dirs s (butlast p)" by (simp add: is_dir_iff[symmetric] is_dir_def)
      from assms(1) os_mkdir_eq[OF ne ad] obtain n' where n': "map_of s p = Some n'"
        by (cases "map_of s p") auto
      from clearD[OF assms(3) ne prefix_order.refl] n' have "map_of s p = Some Dir" by simp
      with ad ne show ?thesis by (simp add: all_dirs_snoc)
    qed
  qed
qed

lemma not_prefix_butlast: "p \<noteq> [] \<Longrightarrow> \<not> prefix p (butlast p)"
proof
  assume a: "p \<noteq> []" and b: "prefix p (butlast p)"
  have "length (butlast p) = length p - 1" by simp
  with prefix_length_le[OF b] have "length p = 0" by arith
  with a show False by simp
qed

lemma grows_same_leaf: "p \<noteq> [] \<Longrightarrow> grows (butlast p) s s' \<Longrightarrow> map_of s' p = map_of s p"
  using growsD[of "butlast p" s s' p] not_prefix_butlast[of p] by auto

lemma mkdir_leaf_succeeds:
  assumes "p \<noteq> []" "all_dirs s (butlast p)" "map_of s p = None \<or> map_of s p = Some Dir"
  shows "fst (mkdir_leaf p s) = None"
proof (cases "map_of s p")
  case None
  with os_mkdir_eq[OF assms(1,2)] show ?thesis by (simp add: mkdir_leaf_def)
next
  case (Some n)
  with assms(3) have "map_of s p = Some Dir" by simp
  with assms(1,2) have "is_dir s p" by (simp add: is_dir_iff all_dirs_snoc)
  with Some os_mkdir_eq[OF assms(1,2)] show ?thesis by (simp add: mkdir_leaf_def)
qed

lemma mkdir_succeeds: "clear s p \<Longrightarrow> fst (mkdir p s) = None"
proof (induction p s rule: mkdir.induct)
  case (1 p s)
  show ?case
  proof (cases "fst (os_mkdir p s) = None")
    case True
    then show ?thesis unfolding mkdir_unfold[of p s] by simp
  next
    case nN: False
    show ?thesis
    proof (cases "fst (os_mkdir p s) = Some FileNotFoundError")
      case fnf: True
      have ne: "p \<noteq> []" using fnf by (auto simp: os_mkdir_def)
      from "1.IH"[OF refl nN fnf ne clear_butlast[OF "1.prems"]]
      have ok1: "fst (mkdir (butlast p) s) = None" .
      let ?s1 = "snd (mkdir (butlast p) s)"
      have ad: "all_dirs ?s1 (butlast p)" using ok1 by (rule mkdir_ok)
      have "map_of ?s1 p = map_of s p" using ne mkdir_grows by (rule grows_same_leaf)
      with clearD[OF "1.prems" ne prefix_order.refl]
      have "map_of ?s1 p = None \<or> map_of ?s1 p = Some Dir" by simp
      from mkdir_leaf_succeeds[OF ne ad this] ok1 fnf ne show ?thesis
        unfolding mkdir_unfold[of p s] by simp
    next
      case False
      from os_mkdir_other_error[OF nN False "1.prems"] nN False show ?thesis
        unfolding mkdir_unfold[of p s] by (simp add: is_dir_iff)
    qed
  qed
qed

lemma open_write_cases:
  "(fst (open_write p c s) \<noteq> None \<and> snd (open_write p c s) = s \<and>
      \<not> (p \<noteq> [] \<and> all_dirs s (butlast p) \<and> map_of s p \<noteq> Some Dir)) \<or>
   (open_write p c s = (None, AList.update p (File c) s) \<and>
      p \<noteq> [] \<and> all_dirs s (butlast p) \<and> map_of s p \<noteq> Some Dir)"
  unfolding open_write_def is_dir_iff[symmetric] is_dir_def
  by (simp split: sum.splits node.splits option.splits)

lemma writable_iff:
  "writable (map_of s) P \<longleftrightarrow> P \<noteq> [] \<and> clear s (butlast P) \<and> map_of s P \<noteq> Some Dir"
proof (cases "P = []")
  case True
  then show ?thesis by (simp add: writable_def)
next
  case False
  then show ?thesis unfolding writable_def clear_def by (simp add: strict_prefix_butlast)
qed

lemma mkdir_map:
  assumes "fst (mkdir d s) = None"
  shows "map_of (snd (mkdir d s)) q = (if q \<noteq> [] \<and> prefix q d then Some Dir else map_of s q)"
proof (cases "q \<noteq> [] \<and> prefix q d")
  case True
  with all_dirsD[OF mkdir_ok[OF assms]] show ?thesis by simp
next
  case False
  with growsD[OF mkdir_grows, of d s q] show ?thesis by auto
qed

lemma mkdir_ok_clear:
  assumes "fst (mkdir d s) = None"
  shows "clear s d"
  unfolding clear_def
proof (intro allI impI)
  fix q assume q: "q \<noteq> [] \<and> prefix q d"
  with all_dirsD[OF mkdir_ok[OF assms], of q] have "map_of (snd (mkdir d s)) q = Some Dir" by simp
  with growsD[OF mkdir_grows, of d s q] show "map_of s q = None \<or> map_of s q = Some Dir" by auto
qed

lemma step_ok:
  assumes w: "writable (map_of s) P"
  shows "fst (mkdir (butlast P) s) = None"
    and "open_write P c (snd (mkdir (butlast P) s)) =
           (None, AList.update P (File c) (snd (mkdir (butlast P) s)))"
    and "map_of (AList.update P (File c) (snd (mkdir (butlast P) s))) = put_file P c (map_of s)"
proof -
  let ?s1 = "snd (mkdir (butlast P) s)"
  from w have ne: "P \<noteq> []" and cl: "clear s (butlast P)" and nd: "map_of s P \<noteq> Some Dir"
    by (simp_all add: writable_iff)
  show ok: "fst (mkdir (butlast P) s) = None" using cl by (rule mkdir_succeeds)
  have ad: "all_dirs ?s1 (butlast P)" using ok by (rule mkdir_ok)
  have same: "map_of ?s1 P = map_of s P" using ne mkdir_grows by (rule grows_same_leaf)
  with nd have nd1: "map_of ?s1 P \<noteq> Some Dir" by simp
  from open_write_cases[of P c ?s1] ne ad nd1
  show "open_write P c ?s1 = (None, AList.update P (File c) ?s1)" by auto
  show "map_of (AList.update P (File c) ?s1) = put_file P c (map_of s)"
  proof
    fix q
    show "map_of (AList.update P (File c) ?s1) q = put_file P c (map_of s) q"
      using mkdir_map[OF ok, of q] ne
      by (simp add: update_conv' put_file_def strict_prefix_butlast)
  qed
qed

lemma step_conv:
  assumes "fst (mkdir (butlast P) s) = None"
    and "fst (open_write P c (snd (mkdir (butlast P) s))) = None"
  shows "writable (map_of s) P"
proof -
  let ?s1 = "snd (mkdir (butlast P) s)"
  from open_write_cases[of P c ?s1] assms(2)
  have ne: "P \<noteq> []" and nd1: "map_of ?s1 P \<noteq> Some Dir" by auto
  have same: "map_of ?s1 P = map_of s P" using ne mkdir_grows by (rule grows_same_leaf)
  from mkdir_ok_clear[OF assms(1)] ne nd1 same show ?thesis by (simp add: writable_iff)
qed


lemma write_pattern_ok_iff:
  "fst (write_pattern e w) = None \<longleftrightarrow> writable (dmap w) (path_of (fst e))"
proof
  assume ok: "fst (write_pattern e w) = None"
  let ?P = "path_of (fst e)"
  from ok have m: "fst (mkdir (butlast ?P) (disk w)) = None"
    by (auto simp: write_pattern_def Let_def parent_def split: if_splits)
  with ok have "fst (open_write ?P (snd e) (snd (mkdir (butlast ?P) (disk w)))) = None"
    by (auto simp: write_pattern_def write_file_def Let_def parent_def split: if_splits)
  with m show "writable (dmap w) ?P" unfolding dmap_def by (rule step_conv)
next
  assume "writable (dmap w) (path_of (fst e))"
  then have w: "writable (map_of (disk w)) (path_of (fst e))" by (simp add: dmap_def)
  show "fst (write_pattern e w) = None"
    using step_ok(1)[OF w] step_ok(2)[OF w, of "snd e"]
    by (simp add: write_pattern_def write_file_def Let_def parent_def)
qed

lemma write_pattern_ok:
  assumes "fst (write_pattern e w) = None"
  shows "dmap (snd (write_pattern e w)) = put_file (path_of (fst e)) (snd e) (dmap w)"
    and "events (snd (write_pattern e w)) =
           events w @ [Wrote (path_of (fst e)) (snd e), Printed (Written (fst e))]"
proof -
  from assms have w: "writable (map_of (disk w)) (path_of (fst e))"
    by (simp add: write_pattern_ok_iff dmap_def)
  show "dmap (snd (write_pattern e w)) = put_file (path_of (fst e)) (snd e) (dmap w)"
    using step_ok(1)[OF w] step_ok(2,3)[OF w, of "snd e"]
    by (simp add: write_pattern_def write_file_def Let_def parent_def dmap_def print_def)
  show "events (snd (write_pattern e w)) =
           events w @ [Wrote (path_of (fst e)) (snd e), Printed (Written (fst e))]"
    using step_ok(1)[OF w] step_ok(2)[OF w, of "snd e"]
    by (simp add: write_pattern_def write_file_def Let_def parent_def print_def)
qed


lemma for_each_append:
  "for_each body (xs @ ys) w =
     (if fst (for_each body xs w) = None then for_each body ys (snd (for_each body xs w))
      else for_each body xs w)"
  by (induction xs arbitrary: w) (auto simp: Let_def)


lemma put_file_same: "put_file P c m P = Some (File c)"
  by (simp add: put_file_def)

lemma put_file_dir: "writable m P \<Longrightarrow> m q = Some Dir \<Longrightarrow> put_file P c m q = Some Dir"
  by (auto simp: put_file_def writable_def)

lemma put_file_file:
  "writable m P \<Longrightarrow> m q = Some (File c0) \<Longrightarrow> q \<noteq> P \<Longrightarrow> put_file P c m q = Some (File c0)"
proof -
  assume w: "writable m P" and f: "m q = Some (File c0)" and ne: "q \<noteq> P"
  have "\<not> (q \<noteq> [] \<and> strict_prefix q P)"
  proof
    assume a: "q \<noteq> [] \<and> strict_prefix q P"
    from w have "\<forall>q. q \<noteq> [] \<and> strict_prefix q P \<longrightarrow> m q = None \<or> m q = Some Dir"
      by (simp add: writable_def)
    then have "q \<noteq> [] \<and> strict_prefix q P \<longrightarrow> m q = None \<or> m q = Some Dir" ..
    with a f show False by simp
  qed
  with f ne show ?thesis by (auto simp: put_file_def)
qed

lemma put_file_anc: "q \<noteq> [] \<Longrightarrow> strict_prefix q P \<Longrightarrow> put_file P c m q = Some Dir"
  by (auto simp: put_file_def)

lemma put_file_other:
  "q \<noteq> P \<Longrightarrow> \<not> (q \<noteq> [] \<and> strict_prefix q P) \<Longrightarrow> put_file P c m q = m q"
  by (auto simp: put_file_def)

lemma effect_dir: "feasible es m \<Longrightarrow> m q = Some Dir \<Longrightarrow> effect es m q = Some Dir"
  by (induction es arbitrary: m) (simp_all add: put_file_dir)

lemma effect_file_other:
  "feasible es m \<Longrightarrow> m q = Some (File c0) \<Longrightarrow> q \<notin> fst ` set es \<Longrightarrow>
   effect es m q = Some (File c0)"
proof (induction es arbitrary: m)
  case Nil
  then show ?case by simp
next
  case (Cons e es)
  from Cons.prems have w: "writable m (fst e)" and f: "feasible es (put_file (fst e) (snd e) m)"
    and ne: "q \<noteq> fst e" and ni: "q \<notin> fst ` set es"
    by auto
  from put_file_file[OF w Cons.prems(2) ne]
  have "put_file (fst e) (snd e) m q = Some (File c0)" .
  from Cons.IH[OF f this ni] show ?case by simp
qed

lemma map_of_rev_Cons:
  "map_of (rev (e # es)) P =
     (case map_of (rev es) P of Some c \<Rightarrow> Some c | None \<Rightarrow> if P = fst e then Some (snd e) else None)"
  by (cases e) (simp add: map_add_def split: option.splits)

lemma map_of_rev_None: "map_of (rev es) P = None \<longleftrightarrow> P \<notin> fst ` set es"
  by (simp add: map_of_eq_None_iff)

lemma effect_last:
  "feasible es m \<Longrightarrow> map_of (rev es) P = Some c \<Longrightarrow> effect es m P = Some (File c)"
proof (induction es arbitrary: m)
  case Nil
  then show ?case by simp
next
  case (Cons e es)
  from Cons.prems(1) have w: "writable m (fst e)" and f: "feasible es (put_file (fst e) (snd e) m)"
    by auto
  show ?case
  proof (cases "map_of (rev es) P")
    case None
    with Cons.prems(2) have P: "P = fst e" "c = snd e"
      by (auto simp: map_of_rev_Cons split: if_splits)
    from None have ni: "P \<notin> fst ` set es" by (simp add: map_of_rev_None)
    have "put_file (fst e) (snd e) m P = Some (File c)" using P by (simp add: put_file_def)
    from effect_file_other[OF f this ni] show ?thesis by simp
  next
    case (Some c')
    with Cons.prems(2) have "c' = c" by (simp add: map_of_rev_Cons)
    with Some Cons.IH[OF f] show ?thesis by simp
  qed
qed

lemma effect_ancestor:
  "feasible es m \<Longrightarrow> ancestor_in q es \<Longrightarrow> effect es m q = Some Dir"
proof (induction es arbitrary: m)
  case Nil
  then show ?case by (simp add: ancestor_in_def)
next
  case (Cons e es)
  from Cons.prems(1) have w: "writable m (fst e)" and f: "feasible es (put_file (fst e) (snd e) m)"
    by auto
  show ?case
  proof (cases "ancestor_in q es")
    case True
    from Cons.IH[OF f True] show ?thesis by simp
  next
    case False
    with Cons.prems(2) have "q \<noteq> []" "strict_prefix q (fst e)"
      by (auto simp: ancestor_in_def)
    then have "put_file (fst e) (snd e) m q = Some Dir" by (rule put_file_anc)
    from effect_dir[OF f this] show ?thesis by simp
  qed
qed

lemma effect_other:
  "q \<notin> fst ` set es \<Longrightarrow> \<not> ancestor_in q es \<Longrightarrow> effect es m q = m q"
proof (induction es arbitrary: m)
  case Nil
  then show ?case by simp
next
  case (Cons e es)
  from Cons.prems have a: "q \<noteq> fst e" "q \<notin> fst ` set es"
    and b: "\<not> (q \<noteq> [] \<and> strict_prefix q (fst e))" "\<not> ancestor_in q es"
    by (auto simp: ancestor_in_def)
  from Cons.IH[OF a(2) b(2)] put_file_other[OF a(1) b(1)] show ?case by simp
qed

lemma feasible_nonempty: "feasible es m \<Longrightarrow> e \<in> set es \<Longrightarrow> fst e \<noteq> []"
  by (induction es arbitrary: m) (auto simp: writable_def)

lemma map_of_rev_Some: "P \<in> fst ` set es \<Longrightarrow> \<exists>c. map_of (rev es) P = Some c"
  using map_of_rev_None[of es P] by (cases "map_of (rev es) P") auto

text \<open>The final state of a completed run, point by point.\<close>

lemma effect_char:
  assumes "feasible es m"
  shows "effect es m q =
     (case map_of (rev es) q of Some c \<Rightarrow> Some (File c)
      | None \<Rightarrow> if ancestor_in q es then Some Dir else m q)"
proof (cases "map_of (rev es) q")
  case (Some c)
  with effect_last[OF assms Some] show ?thesis by simp
next
  case None
  then have ni: "q \<notin> fst ` set es" by (simp add: map_of_rev_None)
  show ?thesis
  proof (cases "ancestor_in q es")
    case True
    with None effect_ancestor[OF assms True] show ?thesis by simp
  next
    case False
    with None effect_other[OF ni False] show ?thesis by simp
  qed
qed


lemma for_each_write_pattern_ok_iff:
  "fst (for_each write_pattern t w) = None \<longleftrightarrow> feasible (targets t) (dmap w)"
proof (induction t arbitrary: w)
  case Nil
  show ?case by (simp add: targets_def)
next
  case (Cons e t)
  show ?case
  proof (cases "fst (write_pattern e w) = None")
    case True
    from write_pattern_ok(1)[OF True] Cons.IH[of "snd (write_pattern e w)"] True
    show ?thesis
      using write_pattern_ok_iff[of e w] by (simp add: targets_def Let_def)
  next
    case False
    then show ?thesis
      using write_pattern_ok_iff[of e w] by (auto simp: targets_def Let_def)
  qed
qed

lemma for_each_write_pattern_ok:
  "fst (for_each write_pattern t w) = None \<Longrightarrow>
   dmap (snd (for_each write_pattern t w)) = effect (targets t) (dmap w) \<and>
   events (snd (for_each write_pattern t w)) = events w @ progress t"
proof (induction t arbitrary: w)
  case Nil
  show ?case by (simp add: targets_def progress_def)
next
  case (Cons e t)
  from Cons.prems have ok: "fst (write_pattern e w) = None"
    by (auto simp: Let_def split: if_splits)
  with Cons.prems have ok2: "fst (for_each write_pattern t (snd (write_pattern e w))) = None"
    by (simp add: Let_def)
  from Cons.IH[OF ok2] write_pattern_ok[OF ok] ok show ?case
    by (simp add: targets_def progress_def Let_def)
qed

lemma dmap_prints [simp]: "dmap (prints ls w) = dmap w"
  by (simp add: dmap_def prints_def)

lemma disk_prints [simp]: "disk (prints ls w) = disk w"
  by (simp add: prints_def)

lemma events_prints [simp]: "events (prints ls w) = events w @ map Printed ls"
  by (simp add: prints_def)

lemma generate_all_ok_iff:
  "fst (generate_all t w) = None \<longleftrightarrow> feasible (targets t) (dmap w)"
  using for_each_write_pattern_ok_iff[of t "prints [Banner, Banner, Banner] w"]
  by (auto simp: generate_all_def Let_def)

lemma generate_all_ok:
  assumes "fst (generate_all t w) = None"
  shows "dmap (snd (generate_all t w)) = effect (targets t) (dmap w)"
    and "events (snd (generate_all t w)) =
           events w @ map Printed [Banner, Banner, Banner] @ progress t @
           map Printed [Banner, Generated (length t), Banner]"
proof -
  let ?w0 = "prints [Banner, Banner, Banner] w"
  from assms have ok: "fst (for_each write_pattern t ?w0) = None"
    by (auto simp: generate_all_def Let_def split: if_splits)
  from for_each_write_pattern_ok[OF ok] ok
  show "dmap (snd (generate_all t w)) = effect (targets t) (dmap w)"
    by (simp add: generate_all_def Let_def)
  from for_each_write_pattern_ok[OF ok] ok
  show "events (snd (generate_all t w)) =
           events w @ map Printed [Banner, Banner, Banner] @ progress t @
           map Printed [Banner, Generated (length t), Banner]"
    by (simp add: generate_all_def Let_def)
qed

lemma walk_cong: "map_of s = map_of s' \<Longrightarrow> walk s cur n xs = walk s' cur n xs"
  by (induction s cur n xs rule: walk.induct) (simp_all split: option.splits)

lemma read_file_cong: "map_of s = map_of s' \<Longrightarrow> read_file s p = read_file s' p"
  by (simp add: read_file_def stat_def walk_cong[of s s'])

lemma read_file_stat: "read_file s P = Inr c \<longleftrightarrow> stat s P = Inr (File c)"
  by (simp add: read_file_def split: sum.splits node.splits)

lemma read_file_iff:
  "read_file s P = Inr c \<longleftrightarrow>
     P \<noteq> [] \<and> (\<forall>q. q \<noteq> [] \<and> strict_prefix q P \<longrightarrow> map_of s q = Some Dir) \<and>
     map_of s P = Some (File c)"
  unfolding read_file_stat stat_Inr_iff by (cases "P = []") simp_all

lemma targets_mem: "(p, c) \<in> set t \<Longrightarrow> (path_of p, c) \<in> set (targets t)"
  by (force simp: targets_def)

lemma written_readable:
  assumes f: "feasible es m" and l: "map_of (rev es) P = Some c" and d: "map_of s = effect es m"
  shows "read_file s P = Inr c"
proof -
  from l have "(P, c) \<in> set (rev es)" by (rule map_of_SomeD)
  then have mem: "(P, c) \<in> set es" by simp
  from feasible_nonempty[OF f mem] have ne: "P \<noteq> []" by simp
  have "map_of s q = Some Dir" if "q \<noteq> [] \<and> strict_prefix q P" for q
  proof -
    from that mem have "ancestor_in q es" by (force simp: ancestor_in_def)
    from effect_ancestor[OF f this] d show ?thesis by simp
  qed
  moreover from effect_last[OF f l] d have "map_of s P = Some (File c)" by simp
  ultimately show ?thesis using ne by (simp add: read_file_iff)
qed

lemma settled_writable: "settled es m \<Longrightarrow> e \<in> set es \<Longrightarrow> writable m (fst e)"
  unfolding settled_def writable_def by fastforce

lemma settled_put:
  assumes s: "settled es m" and e: "e \<in> set es"
  shows "settled es (put_file (fst e) c m)"
  unfolding settled_def
proof (intro ballI conjI allI impI)
  fix x assume x: "x \<in> set es"
  from s x have xs: "fst x \<noteq> []"
    "\<And>q. q \<noteq> [] \<and> strict_prefix q (fst x) \<Longrightarrow> m q = Some Dir"
    "\<exists>c. m (fst x) = Some (File c)"
    unfolding settled_def by blast+
  from s e have es: "fst e \<noteq> []"
    "\<And>q. q \<noteq> [] \<and> strict_prefix q (fst e) \<Longrightarrow> m q = Some Dir"
    "\<exists>c. m (fst e) = Some (File c)"
    unfolding settled_def by blast+
  show "fst x \<noteq> []" by (rule xs(1))
  {
    fix q assume q: "q \<noteq> [] \<and> strict_prefix q (fst x)"
    from xs(2)[OF q] have d: "m q = Some Dir" .
    with es(3) have "q \<noteq> fst e" by auto
    with d show "put_file (fst e) c m q = Some Dir" by (simp add: put_file_def)
  }
  show "\<exists>c'. put_file (fst e) c m (fst x) = Some (File c')"
  proof (cases "fst x = fst e")
    case True
    then show ?thesis by (simp add: put_file_def)
  next
    case False
    have "\<not> (fst x \<noteq> [] \<and> strict_prefix (fst x) (fst e))"
    proof
      assume "fst x \<noteq> [] \<and> strict_prefix (fst x) (fst e)"
      from es(2)[OF this] xs(3) show False by simp
    qed
    with False xs(3) show ?thesis by (simp add: put_file_def)
  qed
qed

lemma settled_feasible: "settled es m \<Longrightarrow> set sub \<subseteq> set es \<Longrightarrow> feasible sub m"
proof (induction sub arbitrary: m)
  case Nil
  show ?case by simp
next
  case (Cons e sub)
  from Cons.prems(2) have e: "e \<in> set es" and sub: "set sub \<subseteq> set es" by simp_all
  from settled_writable[OF Cons.prems(1) e] Cons.IH[OF settled_put[OF Cons.prems(1) e] sub]
  show ?case by simp
qed

lemma feasible_settled: "feasible es m \<Longrightarrow> settled es (effect es m)"
  unfolding settled_def
proof (intro ballI conjI allI impI)
  fix e assume f: "feasible es m" and e: "e \<in> set es"
  show "fst e \<noteq> []" using f e by (rule feasible_nonempty)
  {
    fix q assume "q \<noteq> [] \<and> strict_prefix q (fst e)"
    with e have "ancestor_in q es" unfolding ancestor_in_def by blast
    with f show "effect es m q = Some Dir" by (rule effect_ancestor)
  }
  from e have "fst e \<in> fst ` set es" by simp
  from map_of_rev_Some[OF this] obtain c where "map_of (rev es) (fst e) = Some c" by blast
  from effect_last[OF f this] show "\<exists>c. effect es m (fst e) = Some (File c)" by blast
qed

lemma effect_idem:
  assumes f: "feasible es m"
  shows "feasible es (effect es m)" and "effect es (effect es m) = effect es m"
proof -
  show f2: "feasible es (effect es m)"
    using feasible_settled[OF f] by (rule settled_feasible) simp
  show "effect es (effect es m) = effect es m"
  proof
    fix q
    show "effect es (effect es m) q = effect es m q"
      unfolding effect_char[OF f2, of q]
      by (simp add: effect_char[OF f, of q] split: option.splits)
  qed
qed

lemma map_of_rev_distinct:
  "distinct (map fst es) \<Longrightarrow> (P, c) \<in> set es \<Longrightarrow> map_of (rev es) P = Some c"
  by (rule map_of_is_SomeI) (simp_all add: rev_map[symmetric] del: rev_map)

lemma map_of_rev_last:
  "\<forall>e\<in>set post. fst e \<noteq> P \<Longrightarrow> map_of (rev (pre @ (P, c) # post)) P = Some c"
proof -
  assume "\<forall>e\<in>set post. fst e \<noteq> P"
  then have "P \<notin> fst ` set (rev post)" by auto
  then have "map_of (rev post) P = None" by (simp add: map_of_eq_None_iff)
  then show ?thesis by (simp add: map_add_def)
qed

lemma run_result: "f = (None, w') \<longleftrightarrow> fst f = None \<and> snd f = w'"
  by (cases f) auto

text \<open>
  C1. Completeness: when \<open>generate_all\<close> has run to completion over a table whose paths
  lie in the base directory and denote different files, every entry's path holds a file
  with exactly the entry's content.
\<close>

theorem completeness:
  assumes "\<forall>e\<in>set table. inside_base (fst e)"
    and "distinct (map (\<lambda>e. path_of (fst e)) table)"
    and "generate_all table w = (None, w')"
    and "(filepath, code) \<in> set table"
  shows "read_file (disk w') (path_of filepath) = Inr code"
proof -
  from assms(3) have ok: "fst (generate_all table w) = None" and w': "snd (generate_all table w) = w'"
    by (simp_all add: run_result)
  from ok have f: "feasible (targets table) (dmap w)" by (simp add: generate_all_ok_iff)
  from generate_all_ok(1)[OF ok] w' have d: "map_of (disk w') = effect (targets table) (dmap w)"
    by (simp add: dmap_def)
  from assms(2) have "distinct (map fst (targets table))" by (simp add: targets_def comp_def)
  from map_of_rev_distinct[OF this targets_mem[OF assms(4)]]
  have "map_of (rev (targets table)) (path_of filepath) = Some code" .
  from written_readable[OF f this d] show ?thesis .
qed

lemmas run_defs =
  generate_all_def write_pattern_def write_file_def print_def prints_def parent_def
  path_of_def inside_base_def open_write_def os_mkdir_def mkdir_leaf_def mkdir.simps
  stat_def is_dir_def exists_def read_file_def Let_def

theorem completeness_witness:
  "list_all (\<lambda>e. inside_base (fst e))
       [(''cloud/retry_pattern.py'', ''retry''), (''enterprise/dto_pattern.py'', ''dto'')] \<and>
   distinct (map (\<lambda>e. path_of (fst e))
       [(''cloud/retry_pattern.py'', ''retry''), (''enterprise/dto_pattern.py'', ''dto'')]) \<and>
   generate_all [(''cloud/retry_pattern.py'', ''retry''), (''enterprise/dto_pattern.py'', ''dto'')]
       \<lparr>disk = [], events = []\<rparr> =
     (None,
      \<lparr>disk = [([''cloud''], Dir), ([''cloud'', ''retry_pattern.py''], File ''retry''),
               ([''enterprise''], Dir), ([''enterprise'', ''dto_pattern.py''], File ''dto'')],
       events = [Printed Banner, Printed Banner, Printed Banner,
                 Wrote [''cloud'', ''retry_pattern.py''] ''retry'',
                 Printed (Written ''cloud/retry_pattern.py''),
                 Wrote [''enterprise'', ''dto_pattern.py''] ''dto'',
                 Printed (Written ''enterprise/dto_pattern.py''),
                 Printed Banner, Printed (Generated 2), Printed Banner]\<rparr>) \<and>
   read_file
     [([''cloud''], Dir), ([''cloud'', ''retry_pattern.py''], File ''retry''),
      ([''enterprise''], Dir), ([''enterprise'', ''dto_pattern.py''], File ''dto'')]
     (path_of ''enterprise/dto_pattern.py'') = Inr ''dto''"
  (is "?h1 \<and> ?h2 \<and> ?h3 \<and> ?c")
proof -
  have h1: ?h1 by (simp add: run_defs)
  then have h1': "\<forall>e\<in>set [(''cloud/retry_pattern.py'', ''retry''),
      (''enterprise/dto_pattern.py'', ''dto'')]. inside_base (fst e)"
    unfolding list_all_iff .
  have h2: ?h2 by (simp add: run_defs)
  have h3: ?h3 by (simp add: run_defs)
  have "(''enterprise/dto_pattern.py'', ''dto'') \<in>
    set [(''cloud/retry_pattern.py'', ''retry''), (''enterprise/dto_pattern.py'', ''dto'')]"
    by simp
  from completeness[OF h1' h2 h3 this] have ?c by simp
  with h1 h2 h3 show ?thesis by (intro conjI)
qed

text \<open>
  C6. Last write wins: when the table holds several entries for one file, after a
  completed run the file holds the content of the last of them in iteration order: of
  the entry after which no entry denotes that file. (The items of a dictionary have
  different keys; entries for one file are then keys such as \<^verbatim>\<open>a.py\<close> and
  \<^verbatim>\<open>./a.py\<close>. The loop itself takes any sequence of entries.)
\<close>

theorem last_write_wins:
  assumes "\<forall>e\<in>set table. inside_base (fst e)"
    and "generate_all table w = (None, w')"
    and "table = pre @ (filepath, code) # post"
    and "\<forall>e\<in>set post. path_of (fst e) \<noteq> path_of filepath"
  shows "read_file (disk w') (path_of filepath) = Inr code"
proof -
  from assms(2) have ok: "fst (generate_all table w) = None" and w': "snd (generate_all table w) = w'"
    by (simp_all add: run_result)
  from ok have f: "feasible (targets table) (dmap w)" by (simp add: generate_all_ok_iff)
  from generate_all_ok(1)[OF ok] w' have d: "map_of (disk w') = effect (targets table) (dmap w)"
    by (simp add: dmap_def)
  have t: "targets table = targets pre @ (path_of filepath, code) # targets post"
    by (simp add: assms(3) targets_def)
  from assms(4) have "\<forall>e\<in>set (targets post). fst e \<noteq> path_of filepath"
    by (simp add: targets_def)
  from map_of_rev_last[OF this, of "targets pre" code] t
  have "map_of (rev (targets table)) (path_of filepath) = Some code" by simp
  from written_readable[OF f this d] show ?thesis .
qed

theorem last_write_wins_witness:
  "generate_all [(''cloud/retry_pattern.py'', ''first''), (''cloud/retry_pattern.py'', ''second'')]
       \<lparr>disk = [], events = []\<rparr> =
     (None,
      \<lparr>disk = [([''cloud''], Dir), ([''cloud'', ''retry_pattern.py''], File ''second'')],
       events = [Printed Banner, Printed Banner, Printed Banner,
                 Wrote [''cloud'', ''retry_pattern.py''] ''first'',
                 Printed (Written ''cloud/retry_pattern.py''),
                 Wrote [''cloud'', ''retry_pattern.py''] ''second'',
                 Printed (Written ''cloud/retry_pattern.py''),
                 Printed Banner, Printed (Generated 2), Printed Banner]\<rparr>) \<and>
   read_file [([''cloud''], Dir), ([''cloud'', ''retry_pattern.py''], File ''second'')]
     (path_of ''cloud/retry_pattern.py'') = Inr ''second''"
  (is "?h \<and> ?c")
proof -
  have h1: "\<forall>e\<in>set [(''cloud/retry_pattern.py'', ''first''),
      (''cloud/retry_pattern.py'', ''second'')]. inside_base (fst e)"
    by (simp add: run_defs)
  have h2: ?h by (simp add: run_defs)
  have h3: "[(''cloud/retry_pattern.py'', ''first''), (''cloud/retry_pattern.py'', ''second'')] =
    [(''cloud/retry_pattern.py'', ''first'')] @ (''cloud/retry_pattern.py'', ''second'') # []"
    by simp
  have h4: "\<forall>e\<in>set []. path_of (fst e) \<noteq> path_of ''cloud/retry_pattern.py''" by simp
  from last_write_wins[OF h1 h2 h3 h4] have ?c by simp
  with h2 show ?thesis by (intro conjI)
qed

text \<open>
  C5. Idempotence: after a completed run a second run over the same table completes too,
  and every path reads the same afterwards as after the first run; each write replaces
  the whole file.
\<close>

theorem idempotence:
  assumes "\<forall>e\<in>set table. inside_base (fst e)"
    and "generate_all table w = (None, w1)"
  shows "\<exists>w2. generate_all table w1 = (None, w2) \<and>
              (\<forall>p. read_file (disk w2) p = read_file (disk w1) p)"
proof -
  from assms(2) have ok: "fst (generate_all table w) = None" and w1: "snd (generate_all table w) = w1"
    by (simp_all add: run_result)
  from ok have f: "feasible (targets table) (dmap w)" by (simp add: generate_all_ok_iff)
  from generate_all_ok(1)[OF ok] w1 have d: "dmap w1 = effect (targets table) (dmap w)" by simp
  from effect_idem[OF f] d have f2: "feasible (targets table) (dmap w1)"
    and e2: "effect (targets table) (dmap w1) = dmap w1" by simp_all
  from f2 have ok2: "fst (generate_all table w1) = None" by (simp add: generate_all_ok_iff)
  from generate_all_ok(1)[OF ok2] e2
  have "map_of (disk (snd (generate_all table w1))) = map_of (disk w1)" by (simp add: dmap_def)
  then have "\<forall>p. read_file (disk (snd (generate_all table w1))) p = read_file (disk w1) p"
    using read_file_cong by blast
  moreover from ok2 have "generate_all table w1 = (None, snd (generate_all table w1))"
    by (simp add: run_result)
  ultimately show ?thesis by blast
qed

theorem idempotence_witness:
  "generate_all [(''cloud/retry_pattern.py'', ''retry''), (''enterprise/dto_pattern.py'', ''dto'')]
       \<lparr>disk = [], events = []\<rparr> =
     (None,
      \<lparr>disk = [([''cloud''], Dir), ([''cloud'', ''retry_pattern.py''], File ''retry''),
               ([''enterprise''], Dir), ([''enterprise'', ''dto_pattern.py''], File ''dto'')],
       events = [Printed Banner, Printed Banner, Printed Banner,
                 Wrote [''cloud'', ''retry_pattern.py''] ''retry'',
                 Printed (Written ''cloud/retry_pattern.py''),
                 Wrote [''enterprise'', ''dto_pattern.py''] ''dto'',
                 Printed (Written ''enterprise/dto_pattern.py''),
                 Printed Banner, Printed (Generated 2), Printed Banner]\<rparr>) \<and>
   (\<exists>w2. generate_all [(''cloud/retry_pattern.py'', ''retry''), (''enterprise/dto_pattern.py'', ''dto'')]
       \<lparr>disk = [([''cloud''], Dir), ([''cloud'', ''retry_pattern.py''], File ''retry''),
               ([''enterprise''], Dir), ([''enterprise'', ''dto_pattern.py''], File ''dto'')],
       events = [Printed Banner, Printed Banner, Printed Banner,
                 Wrote [''cloud'', ''retry_pattern.py''] ''retry'',
                 Printed (Written ''cloud/retry_pattern.py''),
                 Wrote [''enterprise'', ''dto_pattern.py''] ''dto'',
                 Printed (Written ''enterprise/dto_pattern.py''),
                 Printed Banner, Printed (Generated 2), Printed Banner]\<rparr> = (None, w2) \<and>
      read_file (disk w2) [''cloud'', ''retry_pattern.py''] = Inr ''retry'')"
  (is "?h \<and> ?c")
proof -
  have h1: "\<forall>e\<in>set [(''cloud/retry_pattern.py'', ''retry''),
      (''enterprise/dto_pattern.py'', ''dto'')]. inside_base (fst e)"
    by (simp add: run_defs)
  have h2: ?h by (simp add: run_defs)
  from idempotence[OF h1 h2] obtain w2 where
    w2: "generate_all [(''cloud/retry_pattern.py'', ''retry''), (''enterprise/dto_pattern.py'', ''dto'')]
       \<lparr>disk = [([''cloud''], Dir), ([''cloud'', ''retry_pattern.py''], File ''retry''),
               ([''enterprise''], Dir), ([''enterprise'', ''dto_pattern.py''], File ''dto'')],
       events = [Printed Banner, Printed Banner, Printed Banner,
                 Wrote [''cloud'', ''retry_pattern.py''] ''retry'',
                 Printed (Written ''cloud/retry_pattern.py''),
                 Wrote [''enterprise'', ''dto_pattern.py''] ''dto'',
                 Printed (Written ''enterprise/dto_pattern.py''),
                 Printed Banner, Printed (Generated 2), Printed Banner]\<rparr> = (None, w2)"
    and r: "\<forall>p. read_file (disk w2) p =
      read_file [([''cloud''], Dir), ([''cloud'', ''retry_pattern.py''], File ''retry''),
               ([''enterprise''], Dir), ([''enterprise'', ''dto_pattern.py''], File ''dto'')] p"
    by auto
  have "read_file [([''cloud''], Dir), ([''cloud'', ''retry_pattern.py''], File ''retry''),
               ([''enterprise''], Dir), ([''enterprise'', ''dto_pattern.py''], File ''dto'')]
      [''cloud'', ''retry_pattern.py''] = Inr ''retry''"
    by (simp add: run_defs)
  with r have "read_file (disk w2) [''cloud'', ''retry_pattern.py''] = Inr ''retry''"
    by simp
  with w2 have ?c by blast
  with h2 show ?thesis by (intro conjI)
qed

lemma progress_append: "progress (xs @ ys) = progress xs @ progress ys"
  by (simp add: progress_def)

lemma targets_append: "targets (xs @ ys) = targets xs @ targets ys"
  by (simp add: targets_def)

lemma prefix_run:
  assumes ok: "fst (for_each write_pattern (pre @ e # post) w0) = None"
  shows "fst (for_each write_pattern (pre @ [e]) w0) = None"
    and "events (snd (for_each write_pattern (pre @ [e]) w0)) =
           events w0 @ progress (pre @ [e])"
    and "read_file (disk (snd (for_each write_pattern (pre @ [e]) w0))) (path_of (fst e)) =
           Inr (snd e)"
    and "for_each write_pattern (pre @ e # post) w0 =
           for_each write_pattern post (snd (for_each write_pattern (pre @ [e]) w0))"
proof -
  have split: "pre @ e # post = (pre @ [e]) @ post" by simp
  from ok show ok1: "fst (for_each write_pattern (pre @ [e]) w0) = None"
    unfolding split for_each_append[of write_pattern "pre @ [e]" post w0]
    by (auto split: if_splits)
  from for_each_write_pattern_ok[OF ok1]
  have d: "map_of (disk (snd (for_each write_pattern (pre @ [e]) w0))) =
             effect (targets (pre @ [e])) (dmap w0)"
    and ev: "events (snd (for_each write_pattern (pre @ [e]) w0)) =
             events w0 @ progress (pre @ [e])"
    by (simp_all add: dmap_def)
  show "events (snd (for_each write_pattern (pre @ [e]) w0)) = events w0 @ progress (pre @ [e])"
    using ev .
  from ok1 have f: "feasible (targets (pre @ [e])) (dmap w0)"
    by (simp add: for_each_write_pattern_ok_iff)
  have "map_of (rev (targets (pre @ [e]))) (path_of (fst e)) = Some (snd e)"
    by (simp add: targets_def)
  from written_readable[OF f this d]
  show "read_file (disk (snd (for_each write_pattern (pre @ [e]) w0))) (path_of (fst e)) =
           Inr (snd e)" .
  from ok1 show "for_each write_pattern (pre @ e # post) w0 =
           for_each write_pattern post (snd (for_each write_pattern (pre @ [e]) w0))"
    unfolding split for_each_append[of write_pattern "pre @ [e]" post w0] by simp
qed

text \<open>
  C8. Sequential order: a completed run of \<open>generate_all\<close> performs, entry after entry in
  the order of the table, the write of the entry and then one progress line that names
  the entry's path; nothing else happens between its three opening and its three closing
  prints. The writes reach the disk in that order: once the loop has processed the entries
  up to and including an entry, the entry's path holds the entry's content and the output
  ends with the entry's progress line, and the rest of the run is the loop over the
  remaining entries from that state. The final tree is the tree at the start with the
  writes applied one after the other in the order of the table.
\<close>

theorem sequential_order:
  assumes "generate_all table w = (None, w')"
  shows "events w' =
     events w @ [Printed Banner, Printed Banner, Printed Banner] @
     concat (map (\<lambda>e. [Wrote (path_of (fst e)) (snd e), Printed (Written (fst e))]) table) @
     [Printed Banner, Printed (Generated (length table)), Printed Banner] \<and>
     map_of (disk w') =
       fold (\<lambda>e. put_file (path_of (fst e)) (snd e)) table (map_of (disk w)) \<and>
     (\<forall>pre e post. table = pre @ e # post \<longrightarrow>
        (\<exists>w1. for_each write_pattern (pre @ [e]) (prints [Banner, Banner, Banner] w) = (None, w1) \<and>
              events w1 =
                events w @ [Printed Banner, Printed Banner, Printed Banner] @
                concat (map (\<lambda>e. [Wrote (path_of (fst e)) (snd e), Printed (Written (fst e))])
                  (pre @ [e])) \<and>
              read_file (disk w1) (path_of (fst e)) = Inr (snd e) \<and>
              (\<exists>w2. for_each write_pattern post w1 = (None, w2) \<and>
                    w' = prints [Banner, Generated (length table), Banner] w2)))"
proof (intro conjI allI impI)
  from assms have ok: "fst (generate_all table w) = None" and w': "snd (generate_all table w) = w'"
    by (simp_all add: run_result)
  from generate_all_ok(2)[OF ok] w'
  show "events w' =
     events w @ [Printed Banner, Printed Banner, Printed Banner] @
     concat (map (\<lambda>e. [Wrote (path_of (fst e)) (snd e), Printed (Written (fst e))]) table) @
     [Printed Banner, Printed (Generated (length table)), Printed Banner]"
    by (simp add: progress_def)
  have eff: "effect (targets t) m = fold (\<lambda>e. put_file (path_of (fst e)) (snd e)) t m" for t m
    by (induction t arbitrary: m) (simp_all add: targets_def)
  from generate_all_ok(1)[OF ok] w'
  show "map_of (disk w') = fold (\<lambda>e. put_file (path_of (fst e)) (snd e)) table (map_of (disk w))"
    by (simp add: dmap_def eff)
  fix pre e post
  assume t: "table = pre @ e # post"
  let ?w0 = "prints [Banner, Banner, Banner] w"
  let ?w1 = "snd (for_each write_pattern (pre @ [e]) ?w0)"
  from ok have okl: "fst (for_each write_pattern table ?w0) = None"
    by (auto simp: generate_all_def Let_def split: if_splits)
  with w' have gen: "w' = prints [Banner, Generated (length table), Banner]
                           (snd (for_each write_pattern table ?w0))"
    by (auto simp: generate_all_def Let_def)
  from okl t have okt: "fst (for_each write_pattern (pre @ e # post) ?w0) = None" by simp
  note p = prefix_run[OF okt]
  have a: "for_each write_pattern (pre @ [e]) ?w0 = (None, ?w1)"
    using p(1) by (simp add: run_result)
  have b: "events ?w1 =
                events w @ [Printed Banner, Printed Banner, Printed Banner] @
                concat (map (\<lambda>e. [Wrote (path_of (fst e)) (snd e), Printed (Written (fst e))])
                  (pre @ [e]))"
    using p(2) by (simp add: progress_def)
  have c: "for_each write_pattern post ?w1 = (None, snd (for_each write_pattern post ?w1))"
    using okt p(4) by (simp add: run_result)
  have d: "w' = prints [Banner, Generated (length table), Banner]
                  (snd (for_each write_pattern post ?w1))"
    using gen t p(4) by simp
  from a b p(3) c d
  show "\<exists>w1. for_each write_pattern (pre @ [e]) ?w0 = (None, w1) \<and>
              events w1 =
                events w @ [Printed Banner, Printed Banner, Printed Banner] @
                concat (map (\<lambda>e. [Wrote (path_of (fst e)) (snd e), Printed (Written (fst e))])
                  (pre @ [e])) \<and>
              read_file (disk w1) (path_of (fst e)) = Inr (snd e) \<and>
              (\<exists>w2. for_each write_pattern post w1 = (None, w2) \<and>
                    w' = prints [Banner, Generated (length table), Banner] w2)"
    by blast
qed

theorem sequential_order_witness:
  "events (snd (generate_all
      [(''cloud/retry_pattern.py'', ''first''), (''enterprise/dto_pattern.py'', ''dto''),
       (''cloud/./retry_pattern.py'', ''second'')]
      \<lparr>disk = [], events = []\<rparr>)) =
     [Printed Banner, Printed Banner, Printed Banner,
      Wrote [''cloud'', ''retry_pattern.py''] ''first'',
      Printed (Written ''cloud/retry_pattern.py''),
      Wrote [''enterprise'', ''dto_pattern.py''] ''dto'',
      Printed (Written ''enterprise/dto_pattern.py''),
      Wrote [''cloud'', ''retry_pattern.py''] ''second'',
      Printed (Written ''cloud/./retry_pattern.py''),
      Printed Banner, Printed (Generated 3), Printed Banner] \<and>
   read_file (disk (snd (for_each write_pattern
        [(''cloud/retry_pattern.py'', ''first'')]
        (prints [Banner, Banner, Banner] \<lparr>disk = [], events = []\<rparr>))))
      [''cloud'', ''retry_pattern.py''] = Inr ''first'' \<and>
   read_file (disk (snd (for_each write_pattern
        [(''cloud/retry_pattern.py'', ''first''), (''enterprise/dto_pattern.py'', ''dto'')]
        (prints [Banner, Banner, Banner] \<lparr>disk = [], events = []\<rparr>))))
      [''cloud'', ''retry_pattern.py''] = Inr ''first'' \<and>
   map_of (disk (snd (generate_all
      [(''cloud/retry_pattern.py'', ''first''), (''enterprise/dto_pattern.py'', ''dto''),
       (''cloud/./retry_pattern.py'', ''second'')]
      \<lparr>disk = [], events = []\<rparr>))) [''cloud'', ''retry_pattern.py''] = Some (File ''second'')"
  (is "?ev \<and> ?r1 \<and> ?r2 \<and> ?fin")
proof -
  let ?t = "[(''cloud/retry_pattern.py'', ''first''), (''enterprise/dto_pattern.py'', ''dto''),
       (''cloud/./retry_pattern.py'', ''second'')]"
  let ?w = "\<lparr>disk = [], events = []\<rparr>"
  have run: "generate_all ?t ?w = (None, snd (generate_all ?t ?w))"
    by (simp add: run_result run_defs)
  note s = sequential_order[OF run]
  from s have ev: ?ev by (simp add: path_of_def)
  from s have "\<exists>w1. for_each write_pattern ([] @ [(''cloud/retry_pattern.py'', ''first'')])
                      (prints [Banner, Banner, Banner] ?w) = (None, w1) \<and>
                    read_file (disk w1) (path_of ''cloud/retry_pattern.py'') = Inr ''first''"
    by (elim conjE allE[of _ "[]"] allE[of _ "(''cloud/retry_pattern.py'', ''first'')"]
         allE[of _ "[(''enterprise/dto_pattern.py'', ''dto''), (''cloud/./retry_pattern.py'', ''second'')]"])
       auto
  then have r1: ?r1 by (auto simp: path_of_def)
  have r2: ?r2 by (simp add: run_defs)
  from s have "map_of (disk (snd (generate_all ?t ?w))) =
      fold (\<lambda>e. put_file (path_of (fst e)) (snd e)) ?t (map_of (disk ?w))" by blast
  then have fin: ?fin by (simp add: put_file_def path_of_def)
  from ev r1 r2 fin show ?thesis by (intro conjI)
qed

















lemma scandir_set:
  "set (remdups (map last (filter (\<lambda>p. p \<noteq> [] \<and> butlast p = d) (map fst s)))) =
   {x. map_of s (d @ [x]) \<noteq> None}"
proof -
  have "x \<in> last ` {p \<in> fst ` set s. p \<noteq> [] \<and> butlast p = d} \<longleftrightarrow> d @ [x] \<in> fst ` set s" for x
  proof
    assume "x \<in> last ` {p \<in> fst ` set s. p \<noteq> [] \<and> butlast p = d}"
    then obtain p where p: "p \<in> fst ` set s" "p \<noteq> []" "butlast p = d" "x = last p" by blast
    from p(2) have "butlast p @ [last p] = p" by simp
    with p show "d @ [x] \<in> fst ` set s" by simp
  next
    assume "d @ [x] \<in> fst ` set s"
    then have "d @ [x] \<in> {p \<in> fst ` set s. p \<noteq> [] \<and> butlast p = d}" by simp
    then have "last (d @ [x]) \<in> last ` {p \<in> fst ` set s. p \<noteq> [] \<and> butlast p = d}"
      by (rule imageI)
    then show "x \<in> last ` {p \<in> fst ` set s. p \<noteq> [] \<and> butlast p = d}" by simp
  qed
  then have "last ` {p \<in> fst ` set s. p \<noteq> [] \<and> butlast p = d} = {x. d @ [x] \<in> fst ` set s}"
    by blast
  then show ?thesis by (simp add: map_of_eq_None_iff)
qed

lemma glob_star_Inr:
  "glob_star s d ext =
     Inr (if is_dir s d
          then map (\<lambda>x. d @ [x]) (filter (\<lambda>x. endswith x ext)
                 (remdups (map last (filter (\<lambda>p. p \<noteq> [] \<and> butlast p = d) (map fst s)))))
          else [])"
  by (simp add: glob_star_def os_scandir_def is_dir_def)

lemma glob_star_length:
  "glob_star s d ext = Inr found \<Longrightarrow>
   length found = (if is_dir s d then card (children s d ext) else 0)"
proof -
  assume g: "glob_star s d ext = Inr found"
  let ?names = "remdups (map last (filter (\<lambda>p. p \<noteq> [] \<and> butlast p = d) (map fst s)))"
  have "distinct (filter (\<lambda>x. endswith x ext) ?names)" by simp
  then have "card (set (filter (\<lambda>x. endswith x ext) ?names)) =
      length (filter (\<lambda>x. endswith x ext) ?names)"
    by (rule distinct_card)
  then have "length (filter (\<lambda>x. endswith x ext) ?names) =
      card (set (filter (\<lambda>x. endswith x ext) ?names))"
    by (rule sym)
  also have "set (filter (\<lambda>x. endswith x ext) ?names) = children s d ext"
    unfolding set_filter scandir_set children_def by blast
  finally have "length (filter (\<lambda>x. endswith x ext) ?names) = card (children s d ext)" .
  with g show ?thesis by (auto simp: glob_star_Inr)
qed

lemma is_dir_exists: "is_dir s d \<Longrightarrow> exists s d"
  by (simp add: is_dir_def exists_def)

lemma count_loop_total: "\<exists>r. count_loop names cats s = Inr r"
  by (induction names arbitrary: cats) (simp_all add: glob_star_Inr Let_def)

lemma count_loop_keys:
  "count_loop names cats s = Inr r \<Longrightarrow> set names \<subseteq> fst ` set cats \<Longrightarrow> map fst r = map fst cats"
proof (induction names arbitrary: cats)
  case Nil
  then show ?case by simp
next
  case (Cons c names)
  from Cons.prems(2) have c: "c \<in> fst ` set cats" and rest: "set names \<subseteq> fst ` set cats" by simp_all
  show ?case
  proof (cases "exists s (path_of c)")
    case True
    obtain found where g: "glob_star s (path_of c) ''.py'' = Inr found"
      by (simp add: glob_star_Inr)
    let ?cats1 = "AList.update c (length found) cats"
    from c have k: "map fst ?cats1 = map fst cats" by (simp add: update_keys)
    from Cons.prems(1) True g have "count_loop names ?cats1 s = Inr r" by (simp add: Let_def)
    from k have "set (map fst ?cats1) = set (map fst cats)" by (rule arg_cong)
    then have "fst ` set ?cats1 = fst ` set cats" by simp
    with rest have "set names \<subseteq> fst ` set ?cats1" by simp
    from Cons.IH[OF \<open>count_loop names ?cats1 s = Inr r\<close> this] k show ?thesis by simp
  next
    case False
    with Cons.prems(1) have "count_loop names cats s = Inr r" by (simp add: Let_def)
    from Cons.IH[OF this rest] show ?thesis .
  qed
qed

lemma count_loop_map_of:
  "count_loop names cats s = Inr r \<Longrightarrow>
   map_of r c = (if c \<in> set names \<and> exists s (path_of c) then Some (count_category s c)
                 else map_of cats c)"
proof (induction names arbitrary: cats)
  case Nil
  then show ?case by simp
next
  case (Cons a names)
  show ?case
  proof (cases "exists s (path_of a)")
    case True
    obtain found where g: "glob_star s (path_of a) ''.py'' = Inr found"
      by (simp add: glob_star_Inr)
    from glob_star_length[OF g] have len: "length found = count_category s a"
      by (simp add: count_category_def)
    let ?cats1 = "AList.update a (length found) cats"
    from Cons.prems True g have "count_loop names ?cats1 s = Inr r" by (simp add: Let_def)
    from Cons.IH[OF this] len True show ?thesis by (auto simp: update_conv')
  next
    case False
    with Cons.prems have "count_loop names cats s = Inr r" by (simp add: Let_def)
    from Cons.IH[OF this] False show ?thesis by auto
  qed
qed

lemma count_category_missing: "\<not> exists s (path_of c) \<Longrightarrow> count_category s c = 0"
  using is_dir_exists[of s "path_of c"] by (auto simp: count_category_def)

lemma reported_append [simp]: "reported c (xs @ ys) = reported c xs @ reported c ys"
  by (simp add: reported_def)

lemma reported_banners [simp]:
  "reported c (Printed Banner # evs) = reported c evs"
  "reported c (Printed (Generated n) # evs) = reported c evs"
  "reported c (Printed (Total n) # evs) = reported c evs"
  "reported c [] = []"
  by (simp_all add: reported_def)

lemma reported_tallies:
  "reported C (map Printed (map (\<lambda>(cat, count). Tally (capitalize cat) count) r)) =
   map snd (filter (\<lambda>e. capitalize (fst e) = C) r)"
  by (induction r) (auto simp: reported_def)

lemma reported_summary:
  "reported C (map Printed (summary_lines r)) = map snd (filter (\<lambda>e. capitalize (fst e) = C) r)"
  using reported_tallies[of C r] by (simp add: summary_lines_def)

lemma filter_key_distinct:
  "distinct (map fst r) \<Longrightarrow> map_of r c = Some k \<Longrightarrow> map snd (filter (\<lambda>e. fst e = c) r) = [k]"
proof (induction r)
  case Nil
  then show ?case by simp
next
  case (Cons e r)
  show ?case
  proof (cases "fst e = c")
    case True
    with Cons.prems(1) have "c \<notin> fst ` set r" by auto
    then have "filter (\<lambda>e. fst e = c) r = []" by (auto simp: filter_empty_conv)
    with True Cons.prems(2) show ?thesis by (cases e) simp
  next
    case False
    with Cons show ?thesis by (cases e) auto
  qed
qed

lemma report_line:
  assumes r: "count_loop (map fst cats) cats s = Inr r"
    and d: "distinct (map capitalize (map fst cats))"
    and z: "\<forall>e\<in>set cats. snd e = 0"
    and c: "c \<in> fst ` set cats"
  shows "reported (capitalize c) (map Printed (summary_lines r)) = [count_category s c]"
proof -
  from count_loop_keys[OF r] have keys: "map fst r = map fst cats" by simp
  from d have "distinct (map fst cats) \<and> inj_on capitalize (set (map fst cats))"
    by (rule iffD1[OF distinct_map])
  then have dk: "distinct (map fst cats)" and inj: "inj_on capitalize (set (map fst cats))"
    by blast+
  from c z have "(c, 0) \<in> set cats" by force
  with dk have m0: "map_of cats c = Some 0" by simp
  from c have "c \<in> set (map fst cats)" by simp
  with count_loop_map_of[OF r, of c] m0 count_category_missing[of s c]
  have m: "map_of r c = Some (count_category s c)" by (cases "exists s (path_of c)") simp_all
  have "filter (\<lambda>e. capitalize (fst e) = capitalize c) r = filter (\<lambda>e. fst e = c) r"
  proof (rule filter_cong[OF refl])
    fix e assume "e \<in> set r"
    then have "fst e \<in> set (map fst r)" by simp
    with keys have "fst e \<in> set (map fst cats)" by simp
    moreover from c have "c \<in> set (map fst cats)" by simp
    ultimately show "(capitalize (fst e) = capitalize c) = (fst e = c)"
      using inj by (auto dest: inj_onD)
  qed
  moreover from dk keys have "distinct (map fst r)" by simp
  ultimately show ?thesis using filter_key_distinct[OF _ m] by (simp add: reported_summary)
qed

lemma categories_distinct:
  "distinct (map capitalize [''creational'', ''structural'', ''behavioral'', ''concurrency'',
     ''architectural'', ''enterprise'', ''cloud'', ''microservices'', ''additional''])"
  by (simp add: capitalize_def upper_char_def lower_char_def)

lemma count_all_patterns_report:
  assumes "c \<in> set [''creational'', ''structural'', ''behavioral'', ''concurrency'',
     ''architectural'', ''enterprise'', ''cloud'', ''microservices'']"
  shows "fst (count_all_patterns w) = None"
    and "disk (snd (count_all_patterns w)) = disk w"
    and "reported (capitalize c) (events (snd (count_all_patterns w))) =
           reported (capitalize c) (events w) @ [count_category (disk w) c]"
proof -
  let ?cats = "[(''creational'', 0::nat), (''structural'', 0), (''behavioral'', 0),
             (''concurrency'', 0), (''architectural'', 0), (''enterprise'', 0),
             (''cloud'', 0), (''microservices'', 0)]"
  obtain r where r: "count_loop (map fst ?cats) ?cats (disk w) = Inr r"
    using count_loop_total by blast
  have d: "distinct (map capitalize (map fst ?cats))" using categories_distinct by simp
  have z: "\<forall>e\<in>set ?cats. snd e = 0" by simp
  from assms have c: "c \<in> fst ` set ?cats" by auto
  have eq: "count_all_patterns w = (None, prints (summary_lines r) w)"
    using r by (simp add: count_all_patterns_def)
  show "fst (count_all_patterns w) = None" using eq by simp
  show "disk (snd (count_all_patterns w)) = disk w" using eq by simp
  show "reported (capitalize c) (events (snd (count_all_patterns w))) =
           reported (capitalize c) (events w) @ [count_category (disk w) c]"
    using eq report_line[OF r d z c] by simp
qed

lemma final_count_report:
  assumes "c \<in> set [''creational'', ''structural'', ''behavioral'', ''concurrency'',
     ''architectural'', ''enterprise'', ''cloud'', ''microservices'', ''additional'']"
  shows "fst (final_count w) = None"
    and "disk (snd (final_count w)) = disk w"
    and "reported (capitalize c) (events (snd (final_count w))) =
           reported (capitalize c) (events w) @ [count_category (disk w) c]"
proof -
  let ?cats = "[(''creational'', 0::nat), (''structural'', 0), (''behavioral'', 0),
             (''concurrency'', 0), (''architectural'', 0), (''enterprise'', 0),
             (''cloud'', 0), (''microservices'', 0), (''additional'', 0)]"
  obtain r where r: "count_loop (map fst ?cats) ?cats (disk w) = Inr r"
    using count_loop_total by blast
  have d: "distinct (map capitalize (map fst ?cats))" using categories_distinct by simp
  have z: "\<forall>e\<in>set ?cats. snd e = 0" by simp
  from assms have c: "c \<in> fst ` set ?cats" by auto
  have eq: "final_count w =
      (None, if 141 \<le> sum_list (map snd r) then prints [Banner, Banner] (prints (summary_lines r) w)
             else prints (summary_lines r) w)"
    using r by (simp add: final_count_def Let_def)
  show "fst (final_count w) = None" using eq by simp
  show "disk (snd (final_count w)) = disk w" using eq by simp
  show "reported (capitalize c) (events (snd (final_count w))) =
           reported (capitalize c) (events w) @ [count_category (disk w) c]"
    using eq report_line[OF r d z c] by simp
qed

text \<open>
  C7. A category of the reporter's list whose directory does not exist is reported with
  the count zero, and the reporter raises nothing: in \<open>count_all_patterns\<close> (eight
  categories) and in the final count of \<open>generate_final_two\<close> (nine).
\<close>

theorem missing_category_zero:
  assumes "\<not> exists (disk w) (path_of category)"
  shows "(category \<in> set [''creational'', ''structural'', ''behavioral'', ''concurrency'',
            ''architectural'', ''enterprise'', ''cloud'', ''microservices''] \<longrightarrow>
          fst (count_all_patterns w) = None \<and>
          reported (capitalize category) (events (snd (count_all_patterns w))) =
            reported (capitalize category) (events w) @ [0]) \<and>
         (category \<in> set [''creational'', ''structural'', ''behavioral'', ''concurrency'',
            ''architectural'', ''enterprise'', ''cloud'', ''microservices'', ''additional''] \<longrightarrow>
          fst (final_count w) = None \<and>
          reported (capitalize category) (events (snd (final_count w))) =
            reported (capitalize category) (events w) @ [0])"
  using count_all_patterns_report(1,3)[of category w] final_count_report(1,3)[of category w]
    count_category_missing[OF assms]
  by simp

lemma strict_prefix_single_iff: "strict_prefix [a] P \<longleftrightarrow> (\<exists>x xs. P = a # x # xs)"
proof (cases P)
  case Nil
  then show ?thesis by simp
next
  case (Cons b Q)
  then show ?thesis by (cases Q) auto
qed

lemma effect_None_iff:
  assumes f: "feasible es m"
  shows "effect es m q = None \<longleftrightarrow> q \<notin> fst ` set es \<and> \<not> ancestor_in q es \<and> m q = None"
proof (cases "map_of (rev es) q")
  case None
  then have "q \<notin> fst ` set es" by (simp add: map_of_rev_None)
  with None effect_char[OF f, of q] show ?thesis by auto
next
  case (Some c)
  then have "(q, c) \<in> set (rev es)" by (rule map_of_SomeD)
  then have "q \<in> fst ` set es" by force
  with Some effect_char[OF f, of q] show ?thesis by auto
qed

lemma category_count_after:
  assumes f: "feasible (targets table) (map_of s)"
    and d: "map_of s' = effect (targets table) (map_of s)"
    and form: "\<forall>x\<in>set table. strict_prefix [cat] (path_of (fst x)) \<longrightarrow>
        length (path_of (fst x)) = 2 \<and> endswith (last (path_of (fst x))) ''.py''"
    and dist: "distinct (map (\<lambda>x. path_of (fst x))
        (filter (\<lambda>x. strict_prefix [cat] (path_of (fst x))) table))"
    and fresh: "list_all (\<lambda>p. \<not> (p \<noteq> [] \<and> butlast p = [cat] \<and> endswith (last p) ''.py''))
        (map fst s)"
  shows "(if is_dir s' [cat] then card (children s' [cat] ''.py'') else 0) =
         length (filter (\<lambda>x. strict_prefix [cat] (path_of (fst x))) table)"
proof -
  let ?cl = "filter (\<lambda>x. strict_prefix [cat] (path_of (fst x))) table"
  let ?paths = "map (\<lambda>x. path_of (fst x)) ?cl"
  have form': "\<exists>n. path_of (fst x) = [cat, n] \<and> endswith n ''.py''" if "x \<in> set ?cl" for x
  proof -
    from that have x: "x \<in> set table" and sp: "strict_prefix [cat] (path_of (fst x))" by simp_all
    from form x sp have l: "length (path_of (fst x)) = 2" and e: "endswith (last (path_of (fst x))) ''.py''"
      by blast+
    from sp obtain a b where "path_of (fst x) = cat # a # b"
      by (auto simp: strict_prefix_single_iff)
    with l e show ?thesis by simp
  qed
  have none_before: "map_of s [cat, n] = None" if "endswith n ''.py''" for n
  proof (rule ccontr)
    assume "map_of s [cat, n] \<noteq> None"
    then have "[cat, n] \<in> set (map fst s)" by (simp add: map_of_eq_None_iff)
    with fresh have "\<not> ([cat, n] \<noteq> [] \<and> butlast [cat, n] = [cat] \<and> endswith (last [cat, n]) ''.py'')"
      unfolding list_all_iff by blast
    with that show False by simp
  qed
  have no_anc: "\<not> ancestor_in [cat, n] (targets table)" for n
  proof
    assume "ancestor_in [cat, n] (targets table)"
    then obtain x where x: "x \<in> set table" and sp: "strict_prefix [cat, n] (path_of (fst x))"
      by (auto simp: ancestor_in_def targets_def)
    from sp obtain a b where p: "path_of (fst x) = cat # a # b" and "strict_prefix [n] (a # b)"
      by (cases "path_of (fst x)") (auto simp: strict_prefix_single_iff)
    then have "3 \<le> length (path_of (fst x))" by (cases b) auto
    moreover from p have "strict_prefix [cat] (path_of (fst x))" by (simp add: strict_prefix_single_iff)
    with form x have "length (path_of (fst x)) = 2" by blast
    ultimately show False by simp
  qed
  have ch: "children s' [cat] ''.py'' = {n. [cat, n] \<in> set ?paths}"
  proof (rule set_eqI)
    fix n
    show "n \<in> children s' [cat] ''.py'' \<longleftrightarrow> n \<in> {n. [cat, n] \<in> set ?paths}"
    proof
      assume "n \<in> children s' [cat] ''.py''"
      then have e: "endswith n ''.py''" and ex: "map_of s' [cat, n] \<noteq> None"
        by (simp_all add: children_def)
      from ex d effect_None_iff[OF f, of "[cat, n]"] none_before[OF e] no_anc[of n]
      have "[cat, n] \<in> fst ` set (targets table)" by auto
      then obtain x where x: "x \<in> set table" and px: "path_of (fst x) = [cat, n]"
        by (auto simp: targets_def)
      from px have "strict_prefix [cat] (path_of (fst x))" by (simp add: strict_prefix_single_iff)
      with x have "x \<in> set ?cl" by simp
      with px show "n \<in> {n. [cat, n] \<in> set ?paths}" by force
    next
      assume "n \<in> {n. [cat, n] \<in> set ?paths}"
      then obtain x where x: "x \<in> set ?cl" and px: "path_of (fst x) = [cat, n]" by auto
      from form'[OF x] px have e: "endswith n ''.py''" by simp
      from x have "x \<in> set table" by simp
      with px have "[cat, n] \<in> fst ` set (targets table)" by (force simp: targets_def)
      with effect_None_iff[OF f, of "[cat, n]"] d have "map_of s' [cat, n] \<noteq> None" by simp
      with e show "n \<in> children s' [cat] ''.py''" by (simp add: children_def)
    qed
  qed
  have "set ?paths = (\<lambda>n. [cat, n]) ` {n. [cat, n] \<in> set ?paths}"
  proof (rule set_eqI)
    fix P
    show "P \<in> set ?paths \<longleftrightarrow> P \<in> (\<lambda>n. [cat, n]) ` {n. [cat, n] \<in> set ?paths}"
    proof
      assume P: "P \<in> set ?paths"
      then obtain x where "x \<in> set ?cl" "P = path_of (fst x)" by auto
      with form'[of x] obtain n where "P = [cat, n]" by auto
      with P show "P \<in> (\<lambda>n. [cat, n]) ` {n. [cat, n] \<in> set ?paths}" by blast
    next
      assume "P \<in> (\<lambda>n. [cat, n]) ` {n. [cat, n] \<in> set ?paths}"
      then show "P \<in> set ?paths" by blast
    qed
  qed
  then have "card (set ?paths) = card ((\<lambda>n. [cat, n]) ` {n. [cat, n] \<in> set ?paths})" by simp
  also have "\<dots> = card {n. [cat, n] \<in> set ?paths}"
    by (rule card_image) (simp add: inj_on_def)
  finally have "card {n. [cat, n] \<in> set ?paths} = card (set ?paths)" by simp
  also from dist have "card (set ?paths) = length ?paths" by (rule distinct_card)
  finally have cnt: "card (children s' [cat] ''.py'') = length ?cl" using ch by simp
  show ?thesis
  proof (cases "is_dir s' [cat]")
    case True
    with cnt show ?thesis by simp
  next
    case False
    have "?cl = []"
    proof (rule ccontr)
      assume "?cl \<noteq> []"
      then obtain x where x: "x \<in> set ?cl" by (cases ?cl) auto
      then have "x \<in> set table" and "strict_prefix [cat] (path_of (fst x))" by simp_all
      then have "ancestor_in [cat] (targets table)" by (force simp: ancestor_in_def targets_def)
      from effect_ancestor[OF f this] d have "map_of s' [cat] = Some Dir" by simp
      then have "is_dir s' [cat]" by (simp add: is_dir_iff all_dirs_snoc all_dirs_Nil)
      with False show False by simp
    qed
    with False show ?thesis by simp
  qed
qed

lemma reported_progress [simp]: "reported c (progress t) = []"
  by (induction t) (simp_all add: progress_def reported_def)

lemma reported_Cons_other [simp]:
  "reported c (Wrote p x # evs) = reported c evs"
  "reported c (Printed (Written q) # evs) = reported c evs"
  by (simp_all add: reported_def)

lemma path_of_cloud: "path_of ''cloud'' = [''cloud'']"
  by (simp add: path_of_def)

lemma loop_then_report:
  assumes ok: "fst (for_each write_pattern table (prints hd_lines w)) = None"
    and hl: "reported ''Cloud'' (map Printed hd_lines) = []"
    and form: "\<forall>x\<in>set (in_category ''cloud'' table).
        length (path_of (fst x)) = 2 \<and> endswith (last (path_of (fst x))) ''.py''"
    and dist: "distinct (map (\<lambda>x. path_of (fst x)) (in_category ''cloud'' table))"
    and fresh: "list_all (\<lambda>p. \<not> (p \<noteq> [] \<and> butlast p = [''cloud''] \<and> endswith (last p) ''.py''))
        (map fst (disk w))"
  shows "count_category
           (disk (prints [Banner, Generated (length table), Banner]
              (snd (for_each write_pattern table (prints hd_lines w))))) ''cloud'' =
         length (in_category ''cloud'' table)"
    and "reported ''Cloud''
           (events (prints [Banner, Generated (length table), Banner]
              (snd (for_each write_pattern table (prints hd_lines w))))) =
         reported ''Cloud'' (events w)"
proof -
  let ?w0 = "prints hd_lines w"
  let ?r = "for_each write_pattern table ?w0"
  let ?w1 = "prints [Banner, Generated (length table), Banner] (snd ?r)"
  from ok have f: "feasible (targets table) (map_of (disk w))"
    by (simp add: for_each_write_pattern_ok_iff dmap_def)
  from for_each_write_pattern_ok[OF ok]
  have d: "map_of (disk ?w1) = effect (targets table) (map_of (disk w))"
    and ev: "events (snd ?r) = events ?w0 @ progress table"
    by (simp_all add: dmap_def)
  from form have form': "\<forall>x\<in>set table. strict_prefix [''cloud''] (path_of (fst x)) \<longrightarrow>
        length (path_of (fst x)) = 2 \<and> endswith (last (path_of (fst x))) ''.py''"
    by (auto simp: in_category_def path_of_cloud)
  from dist have dist': "distinct (map (\<lambda>x. path_of (fst x))
        (filter (\<lambda>x. strict_prefix [''cloud''] (path_of (fst x))) table))"
    by (simp add: in_category_def path_of_cloud)
  have dd: "disk ?w1 = disk (snd ?r)" by simp
  from category_count_after[OF f d form' dist' fresh]
  show "count_category (disk ?w1) ''cloud'' = length (in_category ''cloud'' table)"
    unfolding dd count_category_def path_of_cloud in_category_def .
  show "reported ''Cloud'' (events ?w1) = reported ''Cloud'' (events w)"
    using ev hl by simp
qed

text \<open>
  C4, as amended. When the entries of the table below \<^verbatim>\<open>cloud\<close> all have the form
  \<^verbatim>\<open>cloud/<name>.py\<close>, denote different files, and the directory holds no entry that
  ends in \<^verbatim>\<open>.py\<close> before the run, a completed run reports for Cloud exactly one count:
  the number of those entries. This holds for \<open>generate_final_two\<close> and for
  \<open>generate_final_comprehensive\<close>, which ends with \<open>count_all_patterns\<close>.
\<close>

theorem tally_correctness:
  assumes "\<forall>x\<in>set table. inside_base (fst x)"
    and "\<forall>x\<in>set (in_category ''cloud'' table).
        length (path_of (fst x)) = 2 \<and> endswith (last (path_of (fst x))) ''.py''"
    and "distinct (map (\<lambda>x. path_of (fst x)) (in_category ''cloud'' table))"
    and "list_all (\<lambda>p. \<not> (p \<noteq> [] \<and> butlast p = [''cloud''] \<and> endswith (last p) ''.py''))
        (map fst (disk w))"
  shows "(generate_final_two table w = (None, w') \<longrightarrow>
          reported ''Cloud'' (events w') =
            reported ''Cloud'' (events w) @ [length (in_category ''cloud'' table)]) \<and>
         (generate_final_comprehensive table w = (None, w') \<longrightarrow>
          reported ''Cloud'' (events w') =
            reported ''Cloud'' (events w) @ [length (in_category ''cloud'' table)])"
proof (intro conjI impI)
  let ?hd = "[Banner, Banner, Banner, Banner]"
  let ?r = "for_each write_pattern table (prints ?hd w)"
  let ?w1 = "prints [Banner, Generated (length table), Banner] (snd ?r)"
  have hl: "reported ''Cloud'' (map Printed ?hd) = []" by simp
  have c: "''cloud'' \<in> set [''creational'', ''structural'', ''behavioral'', ''concurrency'',
     ''architectural'', ''enterprise'', ''cloud'', ''microservices'', ''additional'']"
    by simp
  have c8: "''cloud'' \<in> set [''creational'', ''structural'', ''behavioral'', ''concurrency'',
     ''architectural'', ''enterprise'', ''cloud'', ''microservices'']"
    by simp
  have cap: "capitalize ''cloud'' = ''Cloud''"
    by (simp add: capitalize_def upper_char_def lower_char_def)
  {
    assume run: "generate_final_two table w = (None, w')"
    then have ok: "fst ?r = None"
      by (auto simp: generate_final_two_def Let_def split: if_splits)
    with run have w': "w' = snd (final_count ?w1)"
      by (simp add: generate_final_two_def Let_def)
    from loop_then_report[OF ok hl assms(2,3,4)] final_count_report(3)[OF c, of ?w1] cap w'
    show "reported ''Cloud'' (events w') =
            reported ''Cloud'' (events w) @ [length (in_category ''cloud'' table)]"
      by simp
  }
  {
    assume run: "generate_final_comprehensive table w = (None, w')"
    then have ok: "fst ?r = None"
      by (auto simp: generate_final_comprehensive_def Let_def split: if_splits)
    with run have w': "w' = snd (count_all_patterns ?w1)"
      by (simp add: generate_final_comprehensive_def Let_def)
    from loop_then_report[OF ok hl assms(2,3,4)] count_all_patterns_report(3)[OF c8, of ?w1] cap w'
    show "reported ''Cloud'' (events w') =
            reported ''Cloud'' (events w) @ [length (in_category ''cloud'' table)]"
      by simp
  }
qed

lemmas report_defs =
  generate_final_two_def generate_final_comprehensive_def final_count_def count_all_patterns_def
  count_loop.simps glob_star_def os_scandir_def summary_lines_def capitalize_def upper_char_def
  lower_char_def endswith_def reported_def in_category_def

theorem tally_correctness_witness:
  "length (in_category ''cloud''
      [(''cloud/publisher_subscriber_pattern.py'', ''a''),
       (''additional/event_driven_duplicate_pattern.py'', ''b'')]) = 1 \<and>
   fst (generate_final_two
      [(''cloud/publisher_subscriber_pattern.py'', ''a''),
       (''additional/event_driven_duplicate_pattern.py'', ''b'')]
      \<lparr>disk = [], events = []\<rparr>) = None \<and>
   reported ''Cloud'' (events (snd (generate_final_two
      [(''cloud/publisher_subscriber_pattern.py'', ''a''),
       (''additional/event_driven_duplicate_pattern.py'', ''b'')]
      \<lparr>disk = [], events = []\<rparr>))) = [1]"
  (is "?k \<and> ?h \<and> ?c")
proof -
  let ?t = "[(''cloud/publisher_subscriber_pattern.py'', ''a''),
       (''additional/event_driven_duplicate_pattern.py'', ''b'')]"
  let ?w = "\<lparr>disk = [], events = []\<rparr>"
  have k: ?k by (simp add: in_category_def path_of_def)
  have h1: "\<forall>x\<in>set ?t. inside_base (fst x)" by (simp add: run_defs)
  have h2: "\<forall>x\<in>set (in_category ''cloud'' ?t).
        length (path_of (fst x)) = 2 \<and> endswith (last (path_of (fst x))) ''.py''"
    by (simp add: in_category_def path_of_def endswith_def)
  have h3: "distinct (map (\<lambda>x. path_of (fst x)) (in_category ''cloud'' ?t))"
    by (simp add: in_category_def path_of_def)
  have h4: "list_all (\<lambda>p. \<not> (p \<noteq> [] \<and> butlast p = [''cloud''] \<and> endswith (last p) ''.py''))
        (map fst (disk ?w))"
    by simp
  have h: ?h by (simp add: run_defs report_defs)
  then have run: "generate_final_two ?t ?w = (None, snd (generate_final_two ?t ?w))"
    by (simp add: run_result)
  from tally_correctness[OF h1 h2 h3 h4, of "snd (generate_final_two ?t ?w)"] run k
  have ?c by (simp add: reported_def)
  with k h show ?thesis by (intro conjI)
qed

text \<open>
  C4 as stated fails: an entry below \<^verbatim>\<open>cloud\<close> whose name does not end in \<^verbatim>\<open>.py\<close> is
  written and not counted.
\<close>

theorem tally_correctness_counterexample:
  "length (in_category ''cloud'' [(''cloud/notes.txt'', ''text'')]) = 1 \<and>
   generate_final_two [(''cloud/notes.txt'', ''text'')] \<lparr>disk = [], events = []\<rparr> =
     (None,
      \<lparr>disk = [([''cloud''], Dir), ([''cloud'', ''notes.txt''], File ''text'')],
       events =
         [Printed Banner, Printed Banner, Printed Banner, Printed Banner,
          Wrote [''cloud'', ''notes.txt''] ''text'', Printed (Written ''cloud/notes.txt''),
          Printed Banner, Printed (Generated 1), Printed Banner,
          Printed Banner, Printed Banner, Printed Banner,
          Printed (Tally ''Creational'' 0), Printed (Tally ''Structural'' 0),
          Printed (Tally ''Behavioral'' 0), Printed (Tally ''Concurrency'' 0),
          Printed (Tally ''Architectural'' 0), Printed (Tally ''Enterprise'' 0),
          Printed (Tally ''Cloud'' 0), Printed (Tally ''Microservices'' 0),
          Printed (Tally ''Additional'' 0),
          Printed Banner, Printed (Total 0), Printed Banner]\<rparr>)"
  by (simp add: run_defs report_defs)

theorem missing_category_zero_witness:
  "exists [([''cloud''], Dir), ([''cloud'', ''retry_pattern.py''], File ''retry'')]
      (path_of ''enterprise'') = False \<and>
   fst (count_all_patterns
      \<lparr>disk = [([''cloud''], Dir), ([''cloud'', ''retry_pattern.py''], File ''retry'')],
       events = []\<rparr>) = None \<and>
   reported ''Enterprise'' (events (snd (count_all_patterns
      \<lparr>disk = [([''cloud''], Dir), ([''cloud'', ''retry_pattern.py''], File ''retry'')],
       events = []\<rparr>))) = [0]"
  (is "?h \<and> ?a \<and> ?b")
proof -
  let ?w = "\<lparr>disk = [([''cloud''], Dir), ([''cloud'', ''retry_pattern.py''], File ''retry'')],
       events = []\<rparr>"
  have h: ?h by (simp add: exists_def stat_def path_of_def)
  then have h': "\<not> exists (disk ?w) (path_of ''enterprise'')" by simp
  have cap: "capitalize ''enterprise'' = ''Enterprise''"
    by (simp add: capitalize_def upper_char_def lower_char_def)
  from missing_category_zero[OF h'] cap have "?a \<and> ?b" by (simp add: reported_def)
  with h show ?thesis by simp
qed

lemma split_on_nonempty: "split_on sep s \<noteq> []"
  by (induction s) (simp_all add: Let_def)

lemma split_on_append:
  "split_on sep (a @ sep # b) = split_on sep a @ split_on sep b"
proof (induction a)
  case Nil
  show ?case by simp
next
  case (Cons c a)
  from split_on_nonempty[of sep a] obtain x xs where "split_on sep a = x # xs"
    by (cases "split_on sep a") auto
  with Cons show ?case by (simp add: Let_def)
qed

lemma split_on_no_sep: "sep \<notin> set s \<Longrightarrow> split_on sep s = [s]"
  by (induction s) (auto simp: Let_def)

lemma path_of_Nil: "path_of [] = []"
  by (simp add: path_of_def)

lemma os_path_join_split:
  assumes "CHR ''/'' \<notin> set b" "b \<noteq> []" "b \<noteq> ''.''"
  shows "path_of (os_path_join a b) = path_of a @ [b]"
    and "last (split_on CHR ''/'' (os_path_join a b)) = b"
proof -
  from assms have hd: "hd b \<noteq> CHR ''/''" by (cases b) auto
  have sb: "split_on CHR ''/'' b = [b]" using assms(1) by (rule split_on_no_sep)
  show "path_of (os_path_join a b) = path_of a @ [b]"
  proof (cases "a = []")
    case True
    with hd assms sb show ?thesis by (simp add: os_path_join_def path_of_def)
  next
    case ne: False
    show ?thesis
    proof (cases "last a = CHR ''/''")
      case True
      with ne have a: "a = butlast a @ [CHR ''/'']" by (metis append_butlast_last_id)
      have "os_path_join a b = butlast a @ CHR ''/'' # b"
        using ne True hd assms(2) a by (simp add: os_path_join_def)
      moreover have "path_of a = path_of (butlast a)"
        using split_on_append[of "CHR ''/''" "butlast a" "[]"] a by (simp add: path_of_def)
      ultimately show ?thesis using sb assms by (simp add: path_of_def split_on_append)
    next
      case False
      with ne hd assms(2) have "os_path_join a b = a @ CHR ''/'' # b" by (simp add: os_path_join_def)
      then show ?thesis using sb assms by (simp add: path_of_def split_on_append)
    qed
  qed
  show "last (split_on CHR ''/'' (os_path_join a b)) = b"
  proof (cases "a = []")
    case True
    with hd assms sb show ?thesis by (simp add: os_path_join_def)
  next
    case ne: False
    show ?thesis
    proof (cases "last a = CHR ''/''")
      case True
      with ne have a: "a = butlast a @ [CHR ''/'']" by (metis append_butlast_last_id)
      have "os_path_join a b = butlast a @ CHR ''/'' # b"
        using ne True hd assms(2) a by (simp add: os_path_join_def)
      then show ?thesis using sb by (simp add: split_on_append)
    next
      case False
      with ne hd assms(2) have "os_path_join a b = a @ CHR ''/'' # b" by (simp add: os_path_join_def)
      then show ?thesis using sb by (simp add: split_on_append)
    qed
  qed
qed

lemma lower_char_sep:
  "lower_char c = CHR '' '' \<longleftrightarrow> c = CHR '' ''"
  "lower_char c = CHR ''/'' \<longleftrightarrow> c = CHR ''/''"
  "CHR '' '' = lower_char c \<longleftrightarrow> c = CHR '' ''"
  "CHR ''/'' = lower_char c \<longleftrightarrow> c = CHR ''/''"
  by (auto simp: lower_char_def split: if_splits)

lemma replace_map:
  "replace old [new] s = map (\<lambda>c. if c = old then new else c) s"
  by (induction s) (simp_all add: replace_def)

lemma filename_spec: "filename name = spec_filename name"
  unfolding filename_def spec_filename_def replace_map lower_def
  by (auto simp: lower_char_sep)

lemma filename_shape:
  "CHR ''/'' \<notin> set (filename name)" "filename name \<noteq> []" "filename name \<noteq> ''.''"
  unfolding filename_spec spec_filename_def
  by (auto simp: lower_char_sep)

lemma file_path_of:
  "path_of (os_path_join category (filename name)) = path_of category @ [filename name]"
  "last (split_on CHR ''/'' (os_path_join category (filename name))) = filename name"
  using os_path_join_split[OF filename_shape[of name], of category] by simp_all

lemma open_name_eq:
  "last (split_on CHR ''/'' fp) \<noteq> [] \<Longrightarrow> last (split_on CHR ''/'' fp) \<noteq> ''.'' \<Longrightarrow>
   open_name fp c s = open_write (path_of fp) c s"
  by (simp add: open_name_def Let_def)

lemma mkdir_tail:
  "(if fst (os_mkdir p s) = None then os_mkdir p s
    else if is_dir s p then (None, s) else os_mkdir p s) = mkdir_leaf p s"
proof (cases "fst (os_mkdir p s) = Some FileNotFoundError \<and> is_dir s p")
  case True
  then have ne: "p \<noteq> []" by (auto simp: os_mkdir_def)
  from True have "all_dirs s (butlast p)" using ne by (simp add: is_dir_iff all_dirs_snoc)
  then have "stat s (butlast p) = Inr Dir" by (simp add: is_dir_iff[symmetric] is_dir_def)
  with True ne show ?thesis by (simp add: os_mkdir_def split: option.splits)
next
  case False
  then show ?thesis by (auto simp: mkdir_leaf_def Let_def)
qed

lemma makedirs_unfold:
  "makedirs p s =
     (if p \<noteq> [] \<and> \<not> exists s (butlast p) then
        (if fst (makedirs (butlast p) s) = None
         then mkdir_leaf p (snd (makedirs (butlast p) s))
         else if fst (makedirs (butlast p) s) = Some FileExistsError
         then mkdir_leaf p (snd (makedirs (butlast p) s))
         else makedirs (butlast p) s)
      else mkdir_leaf p s)"
  by (subst makedirs.simps, unfold Let_def mkdir_tail[symmetric]) auto

lemma makedirs_grows: "grows p s (snd (makedirs p s))"
proof (induction p s rule: makedirs.induct)
  case (1 p s)
  show ?case
  proof (cases "p \<noteq> [] \<and> \<not> exists s (butlast p)")
    case True
    from "1.IH"[OF True] have "grows (butlast p) s (snd (makedirs (butlast p) s))" .
    then have g: "grows p s (snd (makedirs (butlast p) s))" by (rule grows_butlast)
    have "grows p s (snd (mkdir_leaf p (snd (makedirs (butlast p) s))))"
      using grows_trans[OF g mkdir_leaf_grows] .
    with g True show ?thesis unfolding makedirs_unfold[of p s] by simp
  next
    case False
    then show ?thesis unfolding makedirs_unfold[of p s] using mkdir_leaf_grows[of p s] by auto
  qed
qed

lemma makedirs_ok: "fst (makedirs p s) = None \<Longrightarrow> all_dirs (snd (makedirs p s)) p"
proof -
  assume ok: "fst (makedirs p s) = None"
  show ?thesis
  proof (cases "p \<noteq> [] \<and> \<not> exists s (butlast p)")
    case True
    let ?r = "makedirs (butlast p) s"
    from ok True have "fst (mkdir_leaf p (snd ?r)) = None \<and> makedirs p s = mkdir_leaf p (snd ?r)"
      unfolding makedirs_unfold[of p s] by (auto split: if_splits)
    with mkdir_leaf_ok[of p "snd ?r"] show ?thesis by simp
  next
    case False
    with ok have "fst (mkdir_leaf p s) = None \<and> makedirs p s = mkdir_leaf p s"
      unfolding makedirs_unfold[of p s] by auto
    with mkdir_leaf_ok[of p s] show ?thesis by simp
  qed
qed

lemma exists_clear_all_dirs:
  assumes "exists s d" "clear s d"
  shows "all_dirs s d"
proof -
  from assms(1) obtain n where n: "stat s d = Inr n" by (auto simp: exists_def split: sum.splits)
  show ?thesis
  proof (cases "d = []")
    case True
    then show ?thesis by (simp add: all_dirs_Nil)
  next
    case False
    with n have a: "\<forall>q. q \<noteq> [] \<and> strict_prefix q d \<longrightarrow> map_of s q = Some Dir"
      and b: "map_of s d = Some n" by (simp_all add: stat_Inr_iff)
    from clearD[OF assms(2) False prefix_order.refl] b have "map_of s d = Some Dir" by simp
    with a False show ?thesis by (simp add: all_dirs_iff)
  qed
qed

lemma makedirs_succeeds: "clear s p \<Longrightarrow> fst (makedirs p s) = None"
proof (induction p s rule: makedirs.induct)
  case (1 p s)
  show ?case
  proof (cases "p = []")
    case True
    then show ?thesis unfolding makedirs_unfold[of p s]
      by (simp add: mkdir_leaf_def os_mkdir_def is_dir_Nil)
  next
    case ne: False
    have leaf: "map_of s p = None \<or> map_of s p = Some Dir"
      using clearD[OF "1.prems" ne prefix_order.refl] .
    show ?thesis
    proof (cases "exists s (butlast p)")
      case True
      from exists_clear_all_dirs[OF True clear_butlast[OF "1.prems"]]
      have "all_dirs s (butlast p)" .
      from mkdir_leaf_succeeds[OF ne this leaf] True show ?thesis
        unfolding makedirs_unfold[of p s] by simp
    next
      case False
      let ?s1 = "snd (makedirs (butlast p) s)"
      from "1.IH"[OF conjI[OF ne False] clear_butlast[OF "1.prems"]]
      have ok1: "fst (makedirs (butlast p) s) = None" .
      have ad: "all_dirs ?s1 (butlast p)" using ok1 by (rule makedirs_ok)
      have "map_of ?s1 p = map_of s p" using ne makedirs_grows by (rule grows_same_leaf)
      with leaf have "map_of ?s1 p = None \<or> map_of ?s1 p = Some Dir" by simp
      from mkdir_leaf_succeeds[OF ne ad this] ok1 ne False show ?thesis
        unfolding makedirs_unfold[of p s] by simp
    qed
  qed
qed

lemma makedirs_map:
  assumes "fst (makedirs d s) = None"
  shows "map_of (snd (makedirs d s)) q = (if q \<noteq> [] \<and> prefix q d then Some Dir else map_of s q)"
proof (cases "q \<noteq> [] \<and> prefix q d")
  case True
  with all_dirsD[OF makedirs_ok[OF assms]] show ?thesis by simp
next
  case False
  with growsD[OF makedirs_grows, of d s q] show ?thesis by auto
qed

lemma makedirs_ok_clear:
  assumes "fst (makedirs d s) = None"
  shows "clear s d"
  unfolding clear_def
proof (intro allI impI)
  fix q assume q: "q \<noteq> [] \<and> prefix q d"
  with all_dirsD[OF makedirs_ok[OF assms], of q] have "map_of (snd (makedirs d s)) q = Some Dir" by simp
  with growsD[OF makedirs_grows, of d s q] show "map_of s q = None \<or> map_of s q = Some Dir" by auto
qed

lemma node_step_ok:
  assumes w: "writable (map_of s) P"
  shows "fst (makedirs (butlast P) s) = None"
    and "open_write P c (snd (makedirs (butlast P) s)) =
           (None, AList.update P (File c) (snd (makedirs (butlast P) s)))"
    and "map_of (AList.update P (File c) (snd (makedirs (butlast P) s))) = put_file P c (map_of s)"
proof -
  let ?s1 = "snd (makedirs (butlast P) s)"
  from w have ne: "P \<noteq> []" and cl: "clear s (butlast P)" and nd: "map_of s P \<noteq> Some Dir"
    by (simp_all add: writable_iff)
  show ok: "fst (makedirs (butlast P) s) = None" using cl by (rule makedirs_succeeds)
  have ad: "all_dirs ?s1 (butlast P)" using ok by (rule makedirs_ok)
  have same: "map_of ?s1 P = map_of s P" using ne makedirs_grows by (rule grows_same_leaf)
  with nd have nd1: "map_of ?s1 P \<noteq> Some Dir" by simp
  from open_write_cases[of P c ?s1] ne ad nd1
  show "open_write P c ?s1 = (None, AList.update P (File c) ?s1)" by auto
  show "map_of (AList.update P (File c) ?s1) = put_file P c (map_of s)"
  proof
    fix q
    show "map_of (AList.update P (File c) ?s1) q = put_file P c (map_of s) q"
      using makedirs_map[OF ok, of q] ne
      by (simp add: update_conv' put_file_def strict_prefix_butlast)
  qed
qed

lemma node_step_conv:
  assumes "fst (makedirs (butlast P) s) = None"
    and "fst (open_write P c (snd (makedirs (butlast P) s))) = None"
  shows "writable (map_of s) P"
proof -
  let ?s1 = "snd (makedirs (butlast P) s)"
  from open_write_cases[of P c ?s1] assms(2)
  have ne: "P \<noteq> []" and nd1: "map_of ?s1 P \<noteq> Some Dir" by auto
  have same: "map_of ?s1 P = map_of s P" using ne makedirs_grows by (rule grows_same_leaf)
  from makedirs_ok_clear[OF assms(1)] ne nd1 same show ?thesis by (simp add: writable_iff)
qed

lemma open_file_path:
  "open_name (os_path_join category (filename name)) c s =
   open_write (path_of category @ [filename name]) c s"
  using open_name_eq[of "os_path_join category (filename name)" c s] filename_shape[of name]
  by (simp add: file_path_of)

lemma generate_pattern_ok:
  assumes w: "writable (dmap w) (fst (target (category, name, description)))"
  shows "\<exists>s'. generate_pattern category name description w =
           (Inr (os_path_join category (filename name)),
            w\<lparr>disk := s',
              events := events w @ [Wrote (path_of category @ [filename name])
                                       (pattern_code name description)]\<rparr>) \<and>
           map_of s' = put_file (path_of category @ [filename name])
                          (pattern_code name description) (dmap w)"
proof -
  let ?P = "path_of category @ [filename name]"
  from w have w': "writable (map_of (disk w)) ?P" by (simp add: target_def dmap_def)
  let ?s' = "AList.update ?P (File (pattern_code name description))
               (snd (makedirs (path_of category) (disk w)))"
  have bl: "butlast ?P = path_of category" by simp
  from node_step_ok(1)[OF w']
  have a: "fst (makedirs (path_of category) (disk w)) = None" unfolding bl .
  from node_step_ok(2)[OF w', of "pattern_code name description"]
  have b: "open_write ?P (pattern_code name description)
             (snd (makedirs (path_of category) (disk w))) = (None, ?s')" unfolding bl .
  from node_step_ok(3)[OF w', of "pattern_code name description"]
  have c: "map_of ?s' = put_file ?P (pattern_code name description) (dmap w)"
    unfolding bl dmap_def .
  have "generate_pattern category name description w =
           (Inr (os_path_join category (filename name)),
            w\<lparr>disk := ?s',
              events := events w @ [Wrote ?P (pattern_code name description)]\<rparr>)"
    unfolding generate_pattern_def Let_def open_file_path file_path_of a b by simp
  with c show ?thesis by blast
qed

lemma generate_pattern_ok_iff:
  "(\<exists>fp. fst (generate_pattern category name description w) = Inr fp) \<longleftrightarrow>
   writable (dmap w) (fst (target (category, name, description)))"
proof
  assume "\<exists>fp. fst (generate_pattern category name description w) = Inr fp"
  then have a: "fst (makedirs (path_of category) (disk w)) = None"
    and b: "fst (open_write (path_of category @ [filename name]) (pattern_code name description)
                 (snd (makedirs (path_of category) (disk w)))) = None"
    by (auto simp: generate_pattern_def Let_def open_file_path split: option.splits)
  from node_step_conv[of "path_of category @ [filename name]" "disk w"
      "pattern_code name description"] a b
  show "writable (dmap w) (fst (target (category, name, description)))"
    by (simp add: target_def dmap_def)
next
  assume "writable (dmap w) (fst (target (category, name, description)))"
  from generate_pattern_ok[OF this] show "\<exists>fp. fst (generate_pattern category name description w) = Inr fp"
    by auto
qed

end
